theory Spec2Isabelle
  imports Complex_Main "HOL-Library.Word" "HOL-Library.AList" "HOL-Library.Monad_Syntax"
begin

unbundle bit_operations_syntax

section \<open>Python values\<close>

text \<open>
  A Python \<open>bytes\<close> object is a list of 8-bit words. A Python \<open>str\<close> is a list of
  Unicode code points (natural numbers), since \<open>len\<close>, indexing and slicing of \<open>str\<close>
  count code points. \<open>lit\<close> turns an ASCII literal of the source into such a list.
\<close>

type_synonym byte = "8 word"
type_synonym bytes = "byte list"
type_synonym codepoint = nat
type_synonym pystr = "codepoint list"

definition lit :: "string \<Rightarrow> pystr" where
  "lit s = map of_char s"

text \<open>
  The dynamically typed values that reach the modelled code. A \<open>dict\<close> is an association
  list in insertion order; its keys are strings, as every dictionary of the repository's
  has them.
\<close>

datatype pyval =
    PNone
  | PBool bool
  | PInt int
  | PFloat real
  | PStr pystr
  | PBytes bytes
  | PByteArray bytes
  | PList "pyval list"
  | PTuple "pyval list"
  | PDict "(pystr \<times> pyval) list"

type_synonym pydict = "(pystr \<times> pyval) list"

text \<open>\<open>d[k] = v\<close>: an existing key keeps its position, a new key goes last.\<close>

definition dict_set :: "pydict \<Rightarrow> pystr \<Rightarrow> pyval \<Rightarrow> pydict" where
  "dict_set d k v = AList.update k v d"

text \<open>\<open>d.get(k)\<close>, with \<open>None\<close> for a missing key.\<close>

definition dict_get :: "pydict \<Rightarrow> pystr \<Rightarrow> pyval option" where
  "dict_get d k = map_of d k"

text \<open>The exceptions the modelled code can raise. Those a parser can raise carry the
  text \<open>str(e)\<close> gives.\<close>

datatype exn =
    IndexError pystr
  | KeyError
  | TypeError
  | ValueError pystr
  | AttributeError
  | OSError

text \<open>A socket address \<open>(host, port)\<close>.\<close>

type_synonym address = "pystr \<times> int"

section \<open>proxy/packet.py: Packet\<close>

record packet =
  pkt_id :: pystr
  pkt_timestamp :: real
  pkt_data :: bytes
  pkt_source :: address
  pkt_destination :: address
  pkt_protocol :: pystr
  pkt_direction :: pystr
  pkt_paused :: bool
  pkt_modified :: bool
  pkt_metadata :: pydict

text \<open>
  \<open>Packet.__init__\<close>. The identifier (\<open>uuid.uuid4()\<close>) and the capture time
  (\<open>time.time()\<close>) come from the environment and are arguments of the model.
\<close>

definition Packet :: "pystr \<Rightarrow> real \<Rightarrow> bytes \<Rightarrow> address \<Rightarrow> address \<Rightarrow> pystr \<Rightarrow> pystr \<Rightarrow> packet" where
  "Packet new_id now dat src dst proto dir =
     \<lparr> pkt_id = new_id, pkt_timestamp = now, pkt_data = dat, pkt_source = src,
       pkt_destination = dst, pkt_protocol = proto, pkt_direction = dir,
       pkt_paused = False, pkt_modified = False, pkt_metadata = [] \<rparr>"

text \<open>\<open>isinstance(x, bytes)\<close>.\<close>

fun isinstance_bytes :: "pyval \<Rightarrow> bool" where
  "isinstance_bytes (PBytes b) = True"
| "isinstance_bytes _ = False"

text \<open>\<open>Packet.set_pause\<close>: the new state and the updated packet.\<close>

definition set_pause :: "packet \<Rightarrow> bool \<Rightarrow> bool \<times> packet" where
  "set_pause self p = (p, self\<lparr>pkt_paused := p\<rparr>)"

text \<open>\<open>Packet.modify_data\<close>: the returned flag and the packet after the call.\<close>

definition modify_data :: "packet \<Rightarrow> pyval \<Rightarrow> bool \<times> packet" where
  "modify_data self new_data =
     (case new_data of
        PBytes b \<Rightarrow> (True, self\<lparr>pkt_data := b, pkt_modified := True\<rparr>)
      | _ \<Rightarrow> (False, self))"

section \<open>Packet.modify\_data\<close>

text \<open>
  C10. For every packet \<open>p\<close> and every argument \<open>x\<close> that is not a \<open>bytes\<close> object,
  \<open>modify_data\<close> returns False and leaves the packet as it was, every field included;
  for every \<open>bytes\<close> argument \<open>b\<close> it returns True, sets \<open>data\<close> to \<open>b\<close> and
  \<open>modified\<close> to True, and changes no other field.
\<close>

theorem modify_data_contract:
  "(\<not> isinstance_bytes x \<longrightarrow> modify_data p x = (False, p)) \<and>
   fst (modify_data p (PBytes b)) = True \<and>
   pkt_data (snd (modify_data p (PBytes b))) = b \<and>
   pkt_modified (snd (modify_data p (PBytes b))) = True \<and>
   pkt_id (snd (modify_data p (PBytes b))) = pkt_id p \<and>
   pkt_timestamp (snd (modify_data p (PBytes b))) = pkt_timestamp p \<and>
   pkt_source (snd (modify_data p (PBytes b))) = pkt_source p \<and>
   pkt_destination (snd (modify_data p (PBytes b))) = pkt_destination p \<and>
   pkt_protocol (snd (modify_data p (PBytes b))) = pkt_protocol p \<and>
   pkt_direction (snd (modify_data p (PBytes b))) = pkt_direction p \<and>
   pkt_paused (snd (modify_data p (PBytes b))) = pkt_paused p \<and>
   pkt_metadata (snd (modify_data p (PBytes b))) = pkt_metadata p"
  by (cases x) (simp_all add: modify_data_def)

theorem modify_data_contract_witness:
  "\<not> isinstance_bytes (PStr (lit ''abc'')) \<and>
   modify_data (Packet (lit ''id1'') 5 [1, 2] (lit ''a'', 1) (lit ''b'', 2) (lit ''http'') (lit ''client_to_server''))
      (PStr (lit ''abc''))
     = (False, Packet (lit ''id1'') 5 [1, 2] (lit ''a'', 1) (lit ''b'', 2) (lit ''http'') (lit ''client_to_server'')) \<and>
   pkt_data (snd (modify_data (Packet (lit ''id1'') 5 [1, 2] (lit ''a'', 1) (lit ''b'', 2) (lit ''http'') (lit ''client_to_server''))
      (PBytes [7, 8, 9]))) = [7, 8, 9]"
  using modify_data_contract
    [of "PStr (lit ''abc'')"
        "Packet (lit ''id1'') 5 [1, 2] (lit ''a'', 1) (lit ''b'', 2) (lit ''http'') (lit ''client_to_server'')"
        "[7, 8, 9]"]
  by simp


section \<open>protocols/telnet.py\<close>

text \<open>The command codes of \<open>TelnetProtocolHandler\<close>.\<close>

definition IAC :: byte where "IAC = 255"
definition DONT :: byte where "DONT = 254"
definition DO :: byte where "DO = 253"
definition WONT :: byte where "WONT = 252"
definition WILL :: byte where "WILL = 251"
definition SB :: byte where "SB = 250"
definition SE :: byte where "SE = 240"

text \<open>\<open>buffer[i:j]\<close> for \<open>0 \<le> i\<close> and \<open>0 \<le> j\<close>.\<close>

definition slice :: "'a list \<Rightarrow> nat \<Rightarrow> nat \<Rightarrow> 'a list" where
  "slice xs i j = take (j - i) (drop i xs)"

text \<open>
  The inner loop of \<open>_process_telnet_commands\<close>, which looks for \<open>IAC SE\<close>:
  \<^verbatim>\<open>while j < len(buffer) - 1:
      if buffer[j] == self.IAC and buffer[j+1] == self.SE: break
      j += 1\<close>
  The result is the value of \<open>j\<close> after the loop. (Indices are natural numbers; the
  truncated \<open>length buffer - 1\<close> agrees with Python's on every test the loops make.)
\<close>

function find_se :: "bytes \<Rightarrow> nat \<Rightarrow> nat" where
  "find_se buffer j =
     (if j < length buffer - 1 then
        (if buffer ! j = IAC \<and> buffer ! (j + 1) = SE then j
         else find_se buffer (j + 1))
      else j)"
  by pat_completeness auto
termination
  by (relation "measure (\<lambda>(buffer, j). length buffer - j)") auto

declare find_se.simps [simp del]

lemma find_se_stop: "\<not> j < length buffer - 1 \<Longrightarrow> find_se buffer j = j"
  by (subst find_se.simps) simp

lemma find_se_hit:
  "j < length buffer - 1 \<Longrightarrow> buffer ! j = IAC \<Longrightarrow> buffer ! (j + 1) = SE \<Longrightarrow> find_se buffer j = j"
  by (subst find_se.simps) simp

lemma find_se_step:
  "j < length buffer - 1 \<Longrightarrow> \<not> (buffer ! j = IAC \<and> buffer ! (j + 1) = SE) \<Longrightarrow>
   find_se buffer j = find_se buffer (j + 1)"
  by (subst find_se.simps) auto

lemma find_se_ge: "j \<le> find_se buffer j"
proof (induction buffer j rule: find_se.induct)
  case (1 buffer j)
  show ?case
  proof (cases "j < length buffer - 1 \<and> \<not> (buffer ! j = IAC \<and> buffer ! (j + 1) = SE)")
    case True
    with 1 have "j + 1 \<le> find_se buffer (j + 1)" by simp
    moreover from True have "find_se buffer j = find_se buffer (j + 1)"
      by (simp add: find_se_step)
    ultimately show ?thesis by simp
  next
    case False
    then have "find_se buffer j = j"
      by (cases "j < length buffer - 1") (auto simp: find_se_stop find_se_hit)
    then show ?thesis by simp
  qed
qed

text \<open>
  The outer loop \<open>while i < len(buffer)\<close>, with the index and the processed data as
  arguments. An incomplete subnegotiation ends the scan and is returned as the
  remaining buffer; a byte in the last position is passed through, \<open>IAC\<close> or not.
\<close>

function process_loop :: "bytes \<Rightarrow> nat \<Rightarrow> bytes \<Rightarrow> bytes \<times> bytes" where
  "process_loop buffer i processed_data =
     (if i < length buffer then
        (if buffer ! i \<noteq> IAC \<or> i \<ge> length buffer - 1 then
           process_loop buffer (i + 1) (processed_data @ [buffer ! i])
         else
           (let command = buffer ! (i + 1) in
            if command \<in> set [DO, DONT, WILL, WONT] \<and> i < length buffer - 2 then
              (let option = buffer ! (i + 2) in
               process_loop buffer (i + 3) (processed_data @ [IAC, command, option]))
            else if command = SB then
              (let j = find_se buffer (i + 2) in
               if j < length buffer - 1 then
                 process_loop buffer (j + 2) (processed_data @ slice buffer i (j + 2))
               else (processed_data, drop i buffer))
            else process_loop buffer (i + 2) (processed_data @ [IAC, command])))
      else (processed_data, []))"
  by pat_completeness auto
termination
proof (relation "measure (\<lambda>(buffer, i, processed_data). length buffer - i)", goal_cases)
  case 1
  show ?case by simp
next
  case (2 buffer i processed_data)
  then show ?case by simp
next
  case (3 buffer i processed_data x xa)
  then show ?case by simp
next
  case (4 buffer i processed_data x xa)
  have "i + 2 \<le> find_se buffer (i + 2)" by (rule find_se_ge)
  with 4 show ?case by auto
next
  case (5 buffer i processed_data x)
  then show ?case by simp
qed

declare process_loop.simps [simp del]

text \<open>\<open>_process_telnet_commands\<close>: the processed data and the remaining buffer.\<close>

definition process_telnet_commands :: "bytes \<Rightarrow> pystr \<Rightarrow> bytes \<times> bytes" where
  "process_telnet_commands buffer direction =
     (if IAC \<notin> set buffer then (buffer, [])
      else process_loop buffer 0 [])"


lemma slice_drop: "i \<le> j \<Longrightarrow> j \<le> length xs \<Longrightarrow> slice xs i j @ drop j xs = drop i xs"
proof -
  assume ij: "i \<le> j" and jl: "j \<le> length xs"
  have "drop j xs = drop (j - i) (drop i xs)" using ij by simp
  then show ?thesis unfolding slice_def by (metis append_take_drop_id)
qed

lemma drop_two:
  "i + 1 < length xs \<Longrightarrow> drop i xs = xs ! i # xs ! (i + 1) # drop (i + 2) xs"
  by (simp add: Cons_nth_drop_Suc)

lemma drop_three:
  "i + 2 < length xs \<Longrightarrow> drop i xs = xs ! i # xs ! (i + 1) # xs ! (i + 2) # drop (i + 3) xs"
proof -
  assume a: "i + 2 < length xs"
  then have "drop (i + 2) xs = xs ! (i + 2) # drop (i + 3) xs"
    by (metis Cons_nth_drop_Suc Suc_eq_plus1 add_Suc_right numeral_2_eq_2 numeral_3_eq_3)
  with a show ?thesis by (simp add: drop_two)
qed

lemma SB_not_negotiation: "SB \<notin> set [DO, DONT, WILL, WONT]"
  by (simp add: SB_def DO_def DONT_def WILL_def WONT_def)

lemma process_loop_end: "\<not> i < length buffer \<Longrightarrow> process_loop buffer i acc = (acc, [])"
  by (subst process_loop.simps) simp

lemma process_loop_data:
  "i < length buffer \<Longrightarrow> buffer ! i \<noteq> IAC \<or> i \<ge> length buffer - 1 \<Longrightarrow>
   process_loop buffer i acc = process_loop buffer (i + 1) (acc @ [buffer ! i])"
  by (subst process_loop.simps) simp

lemma process_loop_negotiation:
  "i + 2 < length buffer \<Longrightarrow> buffer ! i = IAC \<Longrightarrow> buffer ! (i + 1) \<in> set [DO, DONT, WILL, WONT] \<Longrightarrow>
   process_loop buffer i acc =
   process_loop buffer (i + 3) (acc @ [IAC, buffer ! (i + 1), buffer ! (i + 2)])"
proof -
  assume a: "i + 2 < length buffer" "buffer ! i = IAC" "buffer ! (i + 1) \<in> set [DO, DONT, WILL, WONT]"
  then have c: "i < length buffer" "\<not> length buffer - 1 \<le> i" "i < length buffer - 2" by auto
  show ?thesis
    by (subst process_loop.simps) (use a c in \<open>simp add: Let_def\<close>)
qed

lemma process_loop_sb_found:
  "i + 1 < length buffer \<Longrightarrow> buffer ! i = IAC \<Longrightarrow> buffer ! (i + 1) = SB \<Longrightarrow>
   find_se buffer (i + 2) < length buffer - 1 \<Longrightarrow>
   process_loop buffer i acc =
   process_loop buffer (find_se buffer (i + 2) + 2) (acc @ slice buffer i (find_se buffer (i + 2) + 2))"
proof -
  assume a: "i + 1 < length buffer" "buffer ! i = IAC" "buffer ! (i + 1) = SB"
    "find_se buffer (i + 2) < length buffer - 1"
  then have c: "i < length buffer" "\<not> (buffer ! i \<noteq> IAC \<or> i \<ge> length buffer - 1)"
    "\<not> length buffer - 1 \<le> i" by auto
  have d: "\<not> (SB \<in> set [DO, DONT, WILL, WONT] \<and> i < length buffer - 2)"
    using SB_not_negotiation by simp
  show ?thesis
    by (subst process_loop.simps)
      (use a c in \<open>simp add: Let_def SB_def DO_def DONT_def WILL_def WONT_def\<close>)
qed

lemma process_loop_sb_incomplete:
  "i + 1 < length buffer \<Longrightarrow> buffer ! i = IAC \<Longrightarrow> buffer ! (i + 1) = SB \<Longrightarrow>
   \<not> find_se buffer (i + 2) < length buffer - 1 \<Longrightarrow>
   process_loop buffer i acc = (acc, drop i buffer)"
proof -
  assume a: "i + 1 < length buffer" "buffer ! i = IAC" "buffer ! (i + 1) = SB"
    "\<not> find_se buffer (i + 2) < length buffer - 1"
  then have c: "i < length buffer" "\<not> (buffer ! i \<noteq> IAC \<or> i \<ge> length buffer - 1)"
    "\<not> length buffer - 1 \<le> i" by auto
  have d: "\<not> (SB \<in> set [DO, DONT, WILL, WONT] \<and> i < length buffer - 2)"
    using SB_not_negotiation by simp
  show ?thesis
    by (subst process_loop.simps)
      (use a c in \<open>simp add: Let_def SB_def DO_def DONT_def WILL_def WONT_def\<close>)
qed

lemma process_loop_other:
  "i + 1 < length buffer \<Longrightarrow> buffer ! i = IAC \<Longrightarrow>
   \<not> (buffer ! (i + 1) \<in> set [DO, DONT, WILL, WONT] \<and> i < length buffer - 2) \<Longrightarrow>
   buffer ! (i + 1) \<noteq> SB \<Longrightarrow>
   process_loop buffer i acc = process_loop buffer (i + 2) (acc @ [IAC, buffer ! (i + 1)])"
proof -
  assume a: "i + 1 < length buffer" "buffer ! i = IAC"
    "\<not> (buffer ! (i + 1) \<in> set [DO, DONT, WILL, WONT] \<and> i < length buffer - 2)"
    "buffer ! (i + 1) \<noteq> SB"
  then have c: "i < length buffer" "\<not> (buffer ! i \<noteq> IAC \<or> i \<ge> length buffer - 1)"
    "\<not> length buffer - 1 \<le> i" by auto
  show ?thesis
    by (subst process_loop.simps) (use a c in \<open>auto simp add: Let_def\<close>)
qed

lemma process_loop_concat:
  "i \<le> length buffer \<Longrightarrow>
   fst (process_loop buffer i acc) @ snd (process_loop buffer i acc) = acc @ drop i buffer"
proof (induction buffer i acc rule: process_loop.induct)
  case (1 buffer i acc)
  show ?case
  proof (cases "i < length buffer")
    case False
    with 1(5) show ?thesis by (simp add: process_loop_end)
  next
    case inb: True
    show ?thesis
    proof (cases "buffer ! i \<noteq> IAC \<or> i \<ge> length buffer - 1")
      case True
      have "i + 1 \<le> length buffer" using inb by arith
      from 1(1) [OF inb True this] show ?thesis
        using inb by (simp add: process_loop_data [OF inb True] Cons_nth_drop_Suc)
    next
      case iac: False
      then have i1: "i + 1 < length buffer" and bi: "buffer ! i = IAC" by auto
      show ?thesis
      proof (cases "buffer ! (i + 1) \<in> set [DO, DONT, WILL, WONT] \<and> i < length buffer - 2")
        case True
        then have i2: "i + 2 < length buffer" and le3: "i + 3 \<le> length buffer" by arith+
        from True have neg: "buffer ! (i + 1) \<in> set [DO, DONT, WILL, WONT]" by simp
        have "drop i buffer = IAC # buffer ! (i + 1) # buffer ! (i + 2) # drop (i + 3) buffer"
          using drop_three [OF i2] bi by simp
        with 1(2) [OF inb iac refl True refl le3] show ?thesis
          by (simp add: process_loop_negotiation [OF i2 bi neg])
      next
        case noneg: False
        show ?thesis
        proof (cases "buffer ! (i + 1) = SB")
          case sb: True
          show ?thesis
          proof (cases "find_se buffer (i + 2) < length buffer - 1")
            case True
            have ge: "i + 2 \<le> find_se buffer (i + 2)" by (rule find_se_ge)
            have le: "find_se buffer (i + 2) + 2 \<le> length buffer" using True by arith
            have "slice buffer i (find_se buffer (i + 2) + 2) @
                  drop (find_se buffer (i + 2) + 2) buffer = drop i buffer"
              using ge le by (intro slice_drop) simp_all
            with 1(3) [OF inb iac refl noneg sb refl True le] show ?thesis
              by (simp add: process_loop_sb_found [OF i1 bi sb True])
          next
            case False
            show ?thesis by (simp add: process_loop_sb_incomplete [OF i1 bi sb False])
          qed
        next
          case other: False
          have le2: "i + 2 \<le> length buffer" using i1 by arith
          have "drop i buffer = IAC # buffer ! (i + 1) # drop (i + 2) buffer"
            using drop_two [OF i1] bi by simp
          with 1(4) [OF inb iac refl noneg other le2] show ?thesis
            by (simp add: process_loop_other [OF i1 bi noneg other])
        qed
      qed
    qed
  qed
qed

text \<open>
  C9. For every input buffer and direction, the pair returned by the Telnet command
  processor satisfies: the processed data followed by the remaining buffer is the input
  buffer, byte for byte. No byte is dropped, duplicated or reordered in a round.
\<close>

theorem process_telnet_commands_concat:
  "fst (process_telnet_commands buffer direction) @ snd (process_telnet_commands buffer direction)
     = buffer"
  using process_loop_concat [of 0 buffer "[]"]
  by (simp add: process_telnet_commands_def)


text \<open>One pass of the relay loop's buffering: \<open>buffer += data\<close>, then the processor.\<close>

definition telnet_read :: "bytes \<Rightarrow> bytes \<Rightarrow> pystr \<Rightarrow> bytes \<times> bytes" where
  "telnet_read buffer dat direction = process_telnet_commands (buffer @ dat) direction"

text \<open>
  The units of a Telnet stream: a data byte, a two-byte command \<open>IAC c\<close>, a
  negotiation \<open>IAC DO/DONT/WILL/WONT option\<close>, and a subnegotiation
  \<open>IAC SB body IAC SE\<close>. A unit is well formed when the processor reads it as such:
  a data byte is not \<open>IAC\<close>, a two-byte command is no negotiation and no \<open>SB\<close>, and
  the body of a subnegotiation holds no \<open>IAC SE\<close> before its end.
\<close>

datatype telnet_token = TData byte | TCmd byte | TNeg byte byte | TSub bytes

fun render :: "telnet_token \<Rightarrow> bytes" where
  "render (TData b) = [b]"
| "render (TCmd c) = [IAC, c]"
| "render (TNeg c opt) = [IAC, c, opt]"
| "render (TSub body) = [IAC, SB] @ body @ [IAC, SE]"

fun iac_se_in :: "bytes \<Rightarrow> bool" where
  "iac_se_in (a # b # xs) = ((a = IAC \<and> b = SE) \<or> iac_se_in (b # xs))"
| "iac_se_in _ = False"

fun wf_token :: "telnet_token \<Rightarrow> bool" where
  "wf_token (TData b) = (b \<noteq> IAC)"
| "wf_token (TCmd c) = (c \<notin> set [DO, DONT, WILL, WONT, SB])"
| "wf_token (TNeg c opt) = (c \<in> set [DO, DONT, WILL, WONT])"
| "wf_token (TSub body) = (\<not> iac_se_in (body @ [IAC]))"

definition render_all :: "telnet_token list \<Rightarrow> bytes" where
  "render_all ts = concat (map render ts)"

lemma find_se_shift: "find_se (a @ b) (length a + j) = length a + find_se b j"
proof (induction b j rule: find_se.induct)
  case (1 b j)
  show ?case
  proof (cases "j < length b - 1")
    case False
    then have "\<not> length a + j < length (a @ b) - 1" by auto
    then show ?thesis using False by (simp add: find_se_stop)
  next
    case True
    then have lt: "length a + j < length (a @ b) - 1" by auto
    have n0: "(a @ b) ! (length a + j) = b ! j" by (simp add: nth_append)
    have n1: "(a @ b) ! (length a + j + 1) = b ! (j + 1)" by (simp add: nth_append)
    show ?thesis
    proof (cases "b ! j = IAC \<and> b ! (j + 1) = SE")
      case hit: True
      then show ?thesis using True lt n0 n1 by (simp add: find_se_hit)
    next
      case miss: False
      have "find_se (a @ b) (length a + j) = find_se (a @ b) (length a + j + 1)"
        using lt miss n0 n1 by (intro find_se_step) auto
      moreover have "find_se b j = find_se b (j + 1)"
        using True miss by (intro find_se_step) auto
      moreover have "find_se (a @ b) (length a + (j + 1)) = length a + find_se b (j + 1)"
        using 1 [OF True miss] .
      ultimately show ?thesis by (simp add: add.assoc)
    qed
  qed
qed

lemma slice_shift: "slice (a @ b) (length a + i) (length a + j) = slice b i j"
  by (simp add: slice_def)

lemma process_loop_shift:
  "process_loop (a @ b) (length a + i) (acc @ acc') =
     (acc @ fst (process_loop b i acc'), snd (process_loop b i acc'))"
proof (induction b i acc' rule: process_loop.induct)
  case (1 b i acc')
  let ?ab = "a @ b" and ?k = "length a + i"
  have n0: "?ab ! ?k = b ! i" by (simp add: nth_append)
  have n1: "?ab ! (?k + 1) = b ! (i + 1)" by (simp add: nth_append)
  have n2: "?ab ! (?k + 2) = b ! (i + 2)" by (simp add: nth_append)
  have n1': "?ab ! Suc ?k = b ! Suc i" by (simp add: nth_append)
  have n2': "?ab ! Suc (Suc ?k) = b ! Suc (Suc i)" by (simp add: nth_append)
  show ?case
  proof (cases "i < length b")
    case False
    then have "\<not> ?k < length ?ab" by simp
    then show ?thesis using False by (simp add: process_loop_end)
  next
    case inb: True
    then have inab: "?k < length ?ab" by simp
    show ?thesis
    proof (cases "b ! i \<noteq> IAC \<or> i \<ge> length b - 1")
      case True
      then have "?ab ! ?k \<noteq> IAC \<or> ?k \<ge> length ?ab - 1" using n0 inb by auto
      from process_loop_data [OF inab this, where acc = "acc @ acc'"]
      have "process_loop ?ab ?k (acc @ acc') = process_loop ?ab (length a + (i + 1)) (acc @ (acc' @ [b ! i]))"
        by (simp add: n0 add.assoc)
      with 1(1) [OF inb True] show ?thesis by (simp add: process_loop_data [OF inb True])
    next
      case iac: False
      then have i1: "i + 1 < length b" and bi: "b ! i = IAC" by auto
      have k1: "?k + 1 < length ?ab" using i1 by simp
      have abk: "?ab ! ?k = IAC" using n0 bi by simp
      show ?thesis
      proof (cases "b ! (i + 1) \<in> set [DO, DONT, WILL, WONT] \<and> i < length b - 2")
        case True
        then have i2: "i + 2 < length b" by arith
        then have k2: "?k + 2 < length ?ab" by simp
        from True have neg: "b ! (i + 1) \<in> set [DO, DONT, WILL, WONT]" by simp
        then have neg': "?ab ! (?k + 1) \<in> set [DO, DONT, WILL, WONT]" using n1 by simp
        from process_loop_negotiation [OF k2 abk neg', where acc = "acc @ acc'"]
        have "process_loop ?ab ?k (acc @ acc') =
              process_loop ?ab (length a + (i + 3)) (acc @ (acc' @ [IAC, b ! (i + 1), b ! (i + 2)]))"
          by (simp add: n1' n2' add.assoc)
        with 1(2) [OF inb iac refl True refl] show ?thesis
          by (simp add: process_loop_negotiation [OF i2 bi neg])
      next
        case noneg: False
        then have noneg': "\<not> (?ab ! (?k + 1) \<in> set [DO, DONT, WILL, WONT] \<and> ?k < length ?ab - 2)"
          using n1 by auto
        show ?thesis
        proof (cases "b ! (i + 1) = SB")
          case sb: True
          then have sb': "?ab ! (?k + 1) = SB" using n1 by simp
          have fs: "find_se ?ab (?k + 2) = length a + find_se b (i + 2)"
            using find_se_shift [of a b "i + 2"] by (simp add: add.assoc)
          show ?thesis
          proof (cases "find_se b (i + 2) < length b - 1")
            case True
            then have found': "find_se ?ab (?k + 2) < length ?ab - 1" using fs by auto
            have e2: "find_se ?ab (?k + 2) + 2 = length a + (find_se b (i + 2) + 2)"
              using fs by simp
            have sl: "slice ?ab ?k (length a + (find_se b (i + 2) + 2)) = slice b i (find_se b (i + 2) + 2)"
              by (rule slice_shift)
            have "process_loop ?ab ?k (acc @ acc') =
                  process_loop ?ab (length a + (find_se b (i + 2) + 2))
                    (acc @ (acc' @ slice b i (find_se b (i + 2) + 2)))"
              using process_loop_sb_found [OF k1 abk sb' found', where acc = "acc @ acc'"]
              unfolding e2 sl by simp
            with 1(3) [OF inb iac refl noneg sb refl True] show ?thesis
              by (simp add: process_loop_sb_found [OF i1 bi sb True])
          next
            case False
            then have nf': "\<not> find_se ?ab (?k + 2) < length ?ab - 1" using fs by auto
            show ?thesis
              by (simp add: process_loop_sb_incomplete [OF i1 bi sb False]
                    process_loop_sb_incomplete [OF k1 abk sb' nf'])
          qed
        next
          case other: False
          then have other': "?ab ! (?k + 1) \<noteq> SB" using n1 by simp
          from process_loop_other [OF k1 abk noneg' other', where acc = "acc @ acc'"]
          have "process_loop ?ab ?k (acc @ acc') =
                process_loop ?ab (length a + (i + 2)) (acc @ (acc' @ [IAC, b ! (i + 1)]))"
            by (simp add: n1' add.assoc)
          with 1(4) [OF inb iac refl noneg other] show ?thesis
            by (simp add: process_loop_other [OF i1 bi noneg other])
        qed
      qed
    qed
  qed
qed


lemma process_telnet_commands_loop:
  "process_telnet_commands buffer direction = process_loop buffer 0 []"
proof -
  have "IAC \<notin> set (drop i buffer) \<Longrightarrow> i \<le> length buffer \<Longrightarrow>
        process_loop buffer i acc = (acc @ drop i buffer, [])" for i acc
  proof (induction "length buffer - i" arbitrary: i acc)
    case 0
    then show ?case by (simp add: process_loop_end)
  next
    case (Suc n)
    then have inb: "i < length buffer" by simp
    have "buffer ! i \<in> set (drop i buffer)"
      using inb by (metis Cons_nth_drop_Suc list.set_intros(1))
    with Suc.prems have ni: "buffer ! i \<noteq> IAC" by auto
    have "IAC \<notin> set (drop (i + 1) buffer)"
      using Suc.prems(1) inb by (metis Cons_nth_drop_Suc Suc_eq_plus1 list.set_intros(2))
    moreover have "n = length buffer - (i + 1)" using Suc.hyps(2) by simp
    ultimately have "process_loop buffer (i + 1) (acc @ [buffer ! i]) =
                     ((acc @ [buffer ! i]) @ drop (i + 1) buffer, [])"
      using Suc.hyps(1) inb by simp
    then show ?case using inb ni by (simp add: process_loop_data Cons_nth_drop_Suc)
  qed
  from this [of 0 "[]"] show ?thesis by (simp add: process_telnet_commands_def)
qed

lemma process_loop_prefix:
  "process_loop (a @ b) (length a) acc = (acc @ fst (process_loop b 0 []), snd (process_loop b 0 []))"
  using process_loop_shift [of a b 0 acc "[]"] by simp

lemma find_se_body:
  "\<not> iac_se_in (body @ [IAC]) \<Longrightarrow>
   find_se (pfx @ body @ IAC # SE # rest) (length pfx) = length pfx + length body"
proof (induction body arbitrary: pfx)
  case Nil
  have "length pfx < length (pfx @ [] @ IAC # SE # rest) - 1" by simp
  moreover have "(pfx @ [] @ IAC # SE # rest) ! length pfx = IAC" by simp
  moreover have "(pfx @ [] @ IAC # SE # rest) ! (length pfx + 1) = SE"
    by (simp add: nth_append)
  ultimately show ?case using find_se_hit by simp
next
  case (Cons x xs)
  let ?buf = "pfx @ (x # xs) @ IAC # SE # rest"
  have lt: "length pfx < length ?buf - 1" by simp
  have b0: "?buf ! length pfx = x" by simp
  have b1: "?buf ! (length pfx + 1) = hd (xs @ [IAC])"
    by (cases xs) (simp_all add: nth_append)
  have nohit: "\<not> (x = IAC \<and> hd (xs @ [IAC]) = SE)"
    using Cons.prems by (cases xs) auto
  have rest: "\<not> iac_se_in (xs @ [IAC])"
    using Cons.prems by (cases xs) auto
  have "find_se ?buf (length pfx) = find_se ?buf (length pfx + 1)"
    using lt nohit b0 b1 by (intro find_se_step) auto
  also have "?buf = (pfx @ [x]) @ xs @ IAC # SE # rest" by simp
  also have "find_se \<dots> (length pfx + 1) = length (pfx @ [x]) + length xs"
    using Cons.IH [OF rest, of "pfx @ [x]"] by simp
  finally show ?case by simp
qed

lemma process_token:
  assumes "wf_token t"
  shows "process_loop (render t @ rest) 0 [] =
         (render t @ fst (process_loop rest 0 []), snd (process_loop rest 0 []))"
proof (cases t)
  case (TData b)
  with assms have "b \<noteq> IAC" by simp
  then have "process_loop ([b] @ rest) 0 [] = process_loop ([b] @ rest) (length [b]) [b]"
    by (simp add: process_loop_data)
  then show ?thesis unfolding process_loop_prefix using TData by simp
next
  case (TCmd c)
  let ?buf = "[IAC, c] @ rest"
  from TCmd assms have c: "c \<notin> set [DO, DONT, WILL, WONT]" "c \<noteq> SB" by auto
  have "process_loop ?buf 0 [] = process_loop ?buf (0 + 2) ([] @ [IAC, ?buf ! (0 + 1)])"
    using c by (intro process_loop_other) auto
  then have "process_loop ?buf 0 [] = process_loop ?buf (length [IAC, c]) [IAC, c]" by simp
  then show ?thesis unfolding process_loop_prefix using TCmd by simp
next
  case (TNeg c opt)
  let ?buf = "[IAC, c, opt] @ rest"
  from TNeg assms have c: "c \<in> set [DO, DONT, WILL, WONT]" by simp
  have "process_loop ?buf 0 [] =
        process_loop ?buf (0 + 3) ([] @ [IAC, ?buf ! (0 + 1), ?buf ! (0 + 2)])"
    using c by (intro process_loop_negotiation) auto
  then have "process_loop ?buf 0 [] = process_loop ?buf (length [IAC, c, opt]) [IAC, c, opt]"
    by (simp add: numeral_3_eq_3)
  then show ?thesis unfolding process_loop_prefix using TNeg by simp
next
  case (TSub body)
  let ?sub = "[IAC, SB] @ body @ [IAC, SE]"
  let ?buf = "?sub @ rest"
  from TSub assms have nb: "\<not> iac_se_in (body @ [IAC])" by simp
  have fs: "find_se ?buf (0 + 2) = 2 + length body"
    using find_se_body [OF nb, of "[IAC, SB]" rest] by simp
  have found: "find_se ?buf (0 + 2) < length ?buf - 1" unfolding fs by simp
  have sl: "slice ?buf 0 (length ?sub) = ?sub"
    by (simp add: slice_def)
  have len: "2 + length body + 2 = length ?sub" by simp
  have "process_loop ?buf 0 [] =
        process_loop ?buf (find_se ?buf (0 + 2) + 2) ([] @ slice ?buf 0 (find_se ?buf (0 + 2) + 2))"
    using found by (intro process_loop_sb_found) auto
  also have "\<dots> = process_loop ?buf (2 + length body + 2) ([] @ slice ?buf 0 (2 + length body + 2))"
    by (simp only: fs)
  also have "\<dots> = process_loop ?buf (length ?sub) ?sub"
    by (simp only: sl len append_Nil)
  finally have "process_loop ?buf 0 [] = process_loop ?buf (length ?sub) ?sub" .
  then show ?thesis unfolding process_loop_prefix using TSub by simp
qed

lemma process_tokens:
  "list_all wf_token ts \<Longrightarrow>
   process_loop (render_all ts @ rest) 0 [] =
     (render_all ts @ fst (process_loop rest 0 []), snd (process_loop rest 0 []))"
proof (induction ts)
  case Nil
  then show ?case by (simp add: render_all_def)
next
  case (Cons t ts)
  then have wf: "wf_token t" and IH: "process_loop (render_all ts @ rest) 0 [] =
     (render_all ts @ fst (process_loop rest 0 []), snd (process_loop rest 0 []))" by simp_all
  have "render_all (t # ts) @ rest = render t @ (render_all ts @ rest)"
    by (simp add: render_all_def)
  then show ?case using process_token [OF wf, of "render_all ts @ rest"] IH
    by (simp add: render_all_def)
qed

lemma iac_se_in_Cons: "iac_se_in xs \<Longrightarrow> iac_se_in (x # xs)"
  by (cases xs) auto

lemma iac_se_in_append: "iac_se_in xs \<Longrightarrow> iac_se_in (xs @ ys)"
  by (induction xs rule: iac_se_in.induct) auto

lemma find_se_found_pair:
  "find_se buffer j < length buffer - 1 \<Longrightarrow> iac_se_in (drop j buffer)"
proof (induction buffer j rule: find_se.induct)
  case (1 buffer j)
  show ?case
  proof (cases "j < length buffer - 1")
    case False
    with 1(2) show ?thesis by (simp add: find_se_stop)
  next
    case True
    then have j1: "j + 1 < length buffer" by arith
    have d: "drop j buffer = buffer ! j # buffer ! (j + 1) # drop (j + 2) buffer"
      by (rule drop_two [OF j1])
    show ?thesis
    proof (cases "buffer ! j = IAC \<and> buffer ! (j + 1) = SE")
      case hit: True
      then show ?thesis unfolding d by simp
    next
      case miss: False
      have "find_se buffer j = find_se buffer (j + 1)"
        using True miss by (rule find_se_step)
      with 1(2) have "find_se buffer (j + 1) < length buffer - 1" by simp
      from 1(1) [OF True miss this] have "iac_se_in (drop (j + 1) buffer)" .
      moreover have "drop j buffer = buffer ! j # drop (j + 1) buffer"
        using j1 by (simp add: Cons_nth_drop_Suc)
      ultimately show ?thesis by (simp add: iac_se_in_Cons)
    qed
  qed
qed

lemma process_incomplete:
  assumes nb: "\<not> iac_se_in (body @ [IAC])"
    and split: "s1 @ s2 = render (TSub body)"
    and l1: "2 \<le> length s1" and l2: "s2 \<noteq> []"
  shows "process_loop s1 0 [] = ([], s1)"
proof -
  from l2 obtain s2' z where s2: "s2 = s2' @ [z]" by (metis rev_exhaust)
  from split s2 have "(s1 @ s2') @ [z] = ([IAC, SB] @ body @ [IAC]) @ [SE]" by simp
  then have eq: "s1 @ s2' = [IAC, SB] @ body @ [IAC]" by (simp only: append1_eq_conv)
  from l1 obtain a b t where s1: "s1 = a # b # t"
    by (cases s1; cases "tl s1") auto
  with eq have ab: "a = IAC" "b = SB" and t: "t @ s2' = body @ [IAC]" by auto
  have nf: "\<not> find_se s1 (0 + 2) < length s1 - 1"
  proof
    assume "find_se s1 (0 + 2) < length s1 - 1"
    then have "iac_se_in (drop (0 + 2) s1)" by (rule find_se_found_pair)
    then have "iac_se_in t" using s1 by simp
    then have "iac_se_in (t @ s2')" by (rule iac_se_in_append)
    with t nb show False by simp
  qed
  have "process_loop s1 0 [] = ([], drop 0 s1)"
    using nf s1 ab by (intro process_loop_sb_incomplete) auto
  then show ?thesis by simp
qed

lemma IAC_in_incomplete:
  assumes "s1 @ s2 = render (TSub body)" "2 \<le> length s1"
  shows "IAC \<in> set s1"
proof -
  from assms(2) obtain a b t where s1: "s1 = a # b # t"
    by (cases s1; cases "tl s1") auto
  with assms(1) show ?thesis by auto
qed

text \<open>
  C3, as the code has it. The stream is a sequence of complete Telnet units (data bytes,
  two-byte commands, three-byte negotiations, complete subnegotiations) followed by a
  subnegotiation \<open>IAC SB body IAC SE\<close> whose body holds no earlier \<open>IAC SE\<close>, followed
  by anything. For every split of the subnegotiation into two reads such that the first
  read holds at least its two opening bytes \<open>IAC SB\<close> and the second at least its last
  byte, the first round emits exactly the bytes before the subnegotiation and retains the
  incomplete part as the remainder, and the second round, on the remainder followed by
  the second read, emits the subnegotiation as one intact unit, followed by what the
  processor emits for the rest of the read.
\<close>

theorem telnet_subnegotiation_reassembled:
  assumes "list_all wf_token ts"
    and "\<not> iac_se_in (body @ [IAC])"
    and "s1 @ s2 = render (TSub body)"
    and "2 \<le> length s1" and "s2 \<noteq> []"
  shows "telnet_read [] (render_all ts @ s1) direction = (render_all ts, s1) \<and>
         telnet_read s1 (s2 @ post) direction =
           (render (TSub body) @ fst (process_telnet_commands post direction),
            snd (process_telnet_commands post direction))"
proof -
  have iac1: "IAC \<in> set (render_all ts @ s1)"
    using IAC_in_incomplete [OF assms(3,4)] by simp
  have "process_loop (render_all ts @ s1) 0 [] = (render_all ts, s1)"
    using process_tokens [OF assms(1), of s1] process_incomplete [OF assms(2-5)] by simp
  then have first: "telnet_read [] (render_all ts @ s1) direction = (render_all ts, s1)"
    using iac1 by (simp add: telnet_read_def process_telnet_commands_def)
  have cat: "s1 @ s2 @ post = render (TSub body) @ post"
    using assms(3) by (metis append_assoc)
  have "wf_token (TSub body)" using assms(2) by simp
  from process_token [OF this, of post]
  have "process_loop (s1 @ s2 @ post) 0 [] =
      (render (TSub body) @ fst (process_loop post 0 []), snd (process_loop post 0 []))"
    unfolding cat .
  then have second: "telnet_read s1 (s2 @ post) direction =
           (render (TSub body) @ fst (process_telnet_commands post direction),
            snd (process_telnet_commands post direction))"
    by (simp add: telnet_read_def process_telnet_commands_loop)
  from first second show ?thesis by simp
qed

theorem telnet_subnegotiation_reassembled_witness:
  "list_all wf_token [TData 65, TNeg 253 1] \<and>
   \<not> iac_se_in ([24, 1] @ [IAC]) \<and>
   [255, 250, 24] @ [1, 255, 240] = render (TSub [24, 1]) \<and>
   2 \<le> length [255, 250, 24 :: byte] \<and> [1, 255, 240 :: byte] \<noteq> [] \<and>
   telnet_read [] [65, 255, 253, 1, 255, 250, 24] (lit ''client_to_server'')
     = ([65, 255, 253, 1], [255, 250, 24]) \<and>
   telnet_read [255, 250, 24] [1, 255, 240, 66] (lit ''client_to_server'')
     = ([255, 250, 24, 1, 255, 240, 66], [])"
proof -
  have h1: "list_all wf_token [TData 65, TNeg 253 1]"
    by (simp add: IAC_def DO_def DONT_def WILL_def WONT_def)
  have h2: "\<not> iac_se_in ([24, 1] @ [IAC])" by (simp add: IAC_def SE_def)
  have h3: "[255, 250, 24] @ [1, 255, 240] = render (TSub [24, 1])"
    by (simp add: IAC_def SB_def SE_def)
  have h4: "2 \<le> length [255, 250, 24 :: byte]" by simp
  have h5: "[1, 255, 240 :: byte] \<noteq> []" by simp
  from telnet_subnegotiation_reassembled
    [OF h1 h2 h3 h4 h5, of "lit ''client_to_server''" "[66]"]
  show ?thesis using h1 h2 h3 h4 h5
    by (simp add: render_all_def process_telnet_commands_def IAC_def SB_def SE_def)
qed

text \<open>
  C3 as stated fails when the split falls between the opening \<open>IAC\<close> and \<open>SB\<close>: the
  subnegotiation \<open>IAC SB 1 IAC SE\<close> straddles the split \<open>[IAC] | [SB, 1, IAC, SE]\<close>, yet the
  first round emits the lone \<open>IAC\<close> (the scan passes a last byte through as data) and
  retains nothing, and the second round emits the other four bytes with nothing held
  back: the subnegotiation leaves in two pieces.
\<close>

theorem telnet_split_after_iac_counterexample:
  "[255] @ [250, 1, 255, 240] = render (TSub [1]) \<and>
   telnet_read [] [255] (lit ''client_to_server'') = ([255], []) \<and>
   telnet_read [] [250, 1, 255, 240] (lit ''client_to_server'') = ([250, 1, 255, 240], [])"
  by code_simp


section \<open>protocols/base.py\<close>

text \<open>The module's own \<open>Packet\<close> class, the one \<open>create_packet\<close> builds: it has no
  direction and no modification flag.\<close>

record base_packet =
  bpk_id :: pystr
  bpk_timestamp :: real
  bpk_data :: bytes
  bpk_source :: address
  bpk_destination :: address
  bpk_protocol :: pystr
  bpk_paused :: bool
  bpk_metadata :: pydict

definition BasePacket :: "pystr \<Rightarrow> real \<Rightarrow> bytes \<Rightarrow> address \<Rightarrow> address \<Rightarrow> pystr \<Rightarrow> base_packet" where
  "BasePacket new_id now dat src dst proto =
     \<lparr> bpk_id = new_id, bpk_timestamp = now, bpk_data = dat, bpk_source = src,
       bpk_destination = dst, bpk_protocol = proto, bpk_paused = False, bpk_metadata = [] \<rparr>"

text \<open>
  A socket, as far as the handlers look at it: the peer it is connected to, if any.
  \<open>getpeername\<close> raises \<open>OSError\<close> on a socket without a peer, and the attribute
  access raises \<open>AttributeError\<close> while \<open>server_socket\<close> is still \<open>None\<close>.
\<close>

record sock =
  sock_peer :: "address option"

fun getpeername :: "sock option \<Rightarrow> exn + address" where
  "getpeername None = Inl AttributeError"
| "getpeername (Some s) = (case sock_peer s of None \<Rightarrow> Inl OSError | Some a \<Rightarrow> Inr a)"

text \<open>The fields of \<open>BaseProtocolHandler\<close>, with the protocol name of the subclass.\<close>

record handler =
  h_client_address :: address
  h_server_socket :: "sock option"
  h_buffer_size :: nat
  h_inspection_mode :: pystr
  h_pause_by_default :: bool
  h_running :: bool
  h_protocol_name :: pystr

text \<open>The abstract method \<open>parse_packet\<close> of a handler.\<close>

type_synonym parser = "bytes \<Rightarrow> pystr \<Rightarrow> exn + pydict"

definition should_inspect_packet :: "handler \<Rightarrow> bytes \<Rightarrow> pystr \<Rightarrow> bool" where
  "should_inspect_packet self dat direction = True"

text \<open>
  \<open>create_packet\<close>. The fresh identifier and the clock reading of the \<open>Packet\<close>
  constructor are arguments. An exception of \<open>getpeername\<close> or of the parser leaves
  the method.
\<close>

definition create_packet ::
  "handler \<Rightarrow> parser \<Rightarrow> pystr \<Rightarrow> real \<Rightarrow> bytes \<Rightarrow> pystr \<Rightarrow> exn + base_packet" where
  "create_packet self parse_packet new_id now dat direction =
     (case (if direction = lit ''client_to_server'' then
              (case getpeername (h_server_socket self) of
                 Inl e \<Rightarrow> Inl e
               | Inr peer \<Rightarrow> Inr (h_client_address self, peer))
            else
              (case getpeername (h_server_socket self) of
                 Inl e \<Rightarrow> Inl e
               | Inr peer \<Rightarrow> Inr (peer, h_client_address self))) of
        Inl e \<Rightarrow> Inl e
      | Inr (src, dst) \<Rightarrow>
          (let packet = BasePacket new_id now dat src dst (h_protocol_name self) in
           case (if h_inspection_mode self \<in> set [lit ''parsed'', lit ''both''] then
                   (case parse_packet dat direction of
                      Inl e \<Rightarrow> Inl e
                    | Inr md \<Rightarrow> Inr (packet\<lparr>bpk_metadata := md\<rparr>))
                 else Inr packet) of
             Inl e \<Rightarrow> Inl e
           | Inr packet' \<Rightarrow> Inr (packet'\<lparr>bpk_paused := h_pause_by_default self\<rparr>)))"

text \<open>
  C8. For every handler, data and direction, the packet returned by \<open>create_packet\<close>
  has, for direction \<open>client_to_server\<close>, the client address as source and the address
  of the upstream peer as destination, and the reverse for any other direction; its
  metadata is the result of \<open>parse_packet\<close> when the inspection mode is \<open>parsed\<close> or
  \<open>both\<close>, and empty otherwise; and its paused flag is the handler's
  \<open>pause_by_default\<close> setting.
\<close>

theorem create_packet_policy:
  assumes "create_packet self parse_packet new_id now dat direction = Inr pkt"
  shows "(\<exists>peer. getpeername (h_server_socket self) = Inr peer \<and>
            (if direction = lit ''client_to_server''
             then bpk_source pkt = h_client_address self \<and> bpk_destination pkt = peer
             else bpk_source pkt = peer \<and> bpk_destination pkt = h_client_address self)) \<and>
         (if h_inspection_mode self \<in> set [lit ''parsed'', lit ''both'']
          then parse_packet dat direction = Inr (bpk_metadata pkt)
          else bpk_metadata pkt = []) \<and>
         bpk_paused pkt = h_pause_by_default self \<and>
         bpk_data pkt = dat \<and> bpk_protocol pkt = h_protocol_name self"
  using assms
  by (auto simp: create_packet_def BasePacket_def Let_def split: sum.splits if_splits)

definition example_handler :: handler where
  "example_handler =
     \<lparr> h_client_address = (lit ''10.0.0.2'', 40000),
       h_server_socket = Some \<lparr> sock_peer = Some (lit ''10.0.0.9'', 80) \<rparr>,
       h_buffer_size = 4096, h_inspection_mode = lit ''both'', h_pause_by_default = True,
       h_running = True, h_protocol_name = lit ''http'' \<rparr>"

theorem create_packet_policy_witness:
  "create_packet example_handler (\<lambda>d r. Inr [(lit ''k'', PInt 1)]) (lit ''id'') 7 [71, 69, 84]
      (lit ''client_to_server'')
     = Inr \<lparr> bpk_id = lit ''id'', bpk_timestamp = 7, bpk_data = [71, 69, 84],
             bpk_source = (lit ''10.0.0.2'', 40000), bpk_destination = (lit ''10.0.0.9'', 80),
             bpk_protocol = lit ''http'', bpk_paused = True,
             bpk_metadata = [(lit ''k'', PInt 1)] \<rparr> \<and>
   getpeername (h_server_socket example_handler) = Inr (lit ''10.0.0.9'', 80)"
proof -
  have r: "create_packet example_handler (\<lambda>d r. Inr [(lit ''k'', PInt 1)]) (lit ''id'') 7 [71, 69, 84]
      (lit ''client_to_server'')
     = Inr \<lparr> bpk_id = lit ''id'', bpk_timestamp = 7, bpk_data = [71, 69, 84],
             bpk_source = (lit ''10.0.0.2'', 40000), bpk_destination = (lit ''10.0.0.9'', 80),
             bpk_protocol = lit ''http'', bpk_paused = True,
             bpk_metadata = [(lit ''k'', PInt 1)] \<rparr>"
    by (simp add: create_packet_def example_handler_def BasePacket_def lit_def)
  from create_packet_policy [OF r] show ?thesis using r by (simp add: example_handler_def)
qed


section \<open>The relay loops\<close>

text \<open>
  What a relay loop does to the outside, in order: the packet it logs
  (\<open>log_packet\<close>), the line \<open>Packet <id> paused (<direction>)\<close> it logs for a
  paused packet, and the bytes it sends to the server or to the client.
\<close>

datatype event =
    LogPacket base_packet
  | LogPaused pystr pystr
  | SendServer bytes
  | SendClient bytes

datatype endpoint = ClientSocket | ServerSocket

text \<open>How an iteration of \<open>while self.running\<close> ends: \<open>Next\<close> goes back to the loop
  test, \<open>Stop\<close> leaves the loop (\<open>break\<close>, also from the \<open>except\<close> clauses).\<close>

datatype ctl = Next | Stop

text \<open>
  The inspection block all loops share:
  \<^verbatim>\<open>if self.should_inspect_packet(data, d):
      packet = self.create_packet(data, d)
      self.log_packet(packet)
      if packet.paused:
          logging.info(f"Packet {packet.id} paused (...)")
          # In a real implementation, we would wait here\<close>
  It returns the events of the block, or the exception that left \<open>create_packet\<close>.
\<close>

definition inspect_block ::
  "handler \<Rightarrow> parser \<Rightarrow> pystr \<Rightarrow> real \<Rightarrow> bytes \<Rightarrow> pystr \<Rightarrow> exn + event list" where
  "inspect_block self parse_packet new_id now dat direction =
     (if should_inspect_packet self dat direction then
        (case create_packet self parse_packet new_id now dat direction of
           Inl e \<Rightarrow> Inl e
         | Inr packet \<Rightarrow>
             Inr (LogPacket packet #
                  (if bpk_paused packet then [LogPaused (bpk_id packet) direction] else [])))
      else Inr [])"

text \<open>A socket that \<open>select\<close> reported readable, with what \<open>recv\<close> returns on it and
  the identifier and clock reading the packet made from it will get.\<close>

type_synonym readable = "endpoint \<times> bytes \<times> pystr \<times> real"

text \<open>
  \<open>HTTPProtocolHandler._proxy_data\<close>: the \<open>for sock in readable\<close> loop of one
  iteration. An empty read clears \<open>running\<close> and leaves the \<open>for\<close> loop; an
  exception leaves the \<open>while\<close> loop through \<open>except Exception: break\<close>.
\<close>

fun http_for_readable ::
  "handler \<Rightarrow> parser \<Rightarrow> bool \<Rightarrow> readable list \<Rightarrow> handler \<times> event list \<times> ctl" where
  "http_for_readable self parse_packet skip_client_first [] = (self, [], Next)"
| "http_for_readable self parse_packet skip_client_first ((s, dat, new_id, now) # rest) =
     (if s = ClientSocket \<and> \<not> skip_client_first then
        (if dat = [] then (self\<lparr>h_running := False\<rparr>, [], Next)
         else
           (case inspect_block self parse_packet new_id now dat (lit ''client_to_server'') of
              Inl e \<Rightarrow> (self, [], Stop)
            | Inr evs \<Rightarrow>
                (case http_for_readable self parse_packet skip_client_first rest of
                   (self', evs', c) \<Rightarrow> (self', evs @ [SendServer dat] @ evs', c))))
      else if s = ServerSocket then
        (if dat = [] then (self\<lparr>h_running := False\<rparr>, [], Next)
         else
           (case inspect_block self parse_packet new_id now dat (lit ''server_to_client'') of
              Inl e \<Rightarrow> (self, [], Stop)
            | Inr evs \<Rightarrow>
                (case http_for_readable self parse_packet skip_client_first rest of
                   (self', evs', c) \<Rightarrow> (self', evs @ [SendClient dat] @ evs', c))))
      else http_for_readable self parse_packet skip_client_first rest)"

text \<open>
  \<open>TelnetProtocolHandler._proxy_data\<close>: the same loop, with the two accumulation
  buffers; only the processed part of a buffer is inspected and forwarded.
\<close>

fun telnet_for_readable ::
  "handler \<Rightarrow> parser \<Rightarrow> bytes \<times> bytes \<Rightarrow> readable list \<Rightarrow>
   handler \<times> (bytes \<times> bytes) \<times> event list \<times> ctl" where
  "telnet_for_readable self parse_packet bufs [] = (self, bufs, [], Next)"
| "telnet_for_readable self parse_packet (client_buffer, server_buffer) ((s, dat, new_id, now) # rest) =
     (if s = ClientSocket then
        (if dat = [] then (self\<lparr>h_running := False\<rparr>, (client_buffer, server_buffer), [], Next)
         else
           (case process_telnet_commands (client_buffer @ dat) (lit ''client_to_server'') of
              (processed_data, client_buffer') \<Rightarrow>
                (if processed_data \<noteq> [] then
                   (case inspect_block self parse_packet new_id now processed_data
                           (lit ''client_to_server'') of
                      Inl e \<Rightarrow> (self, (client_buffer', server_buffer), [], Stop)
                    | Inr evs \<Rightarrow>
                        (case telnet_for_readable self parse_packet (client_buffer', server_buffer) rest of
                           (self', bufs', evs', c) \<Rightarrow>
                             (self', bufs', evs @ [SendServer processed_data] @ evs', c)))
                 else telnet_for_readable self parse_packet (client_buffer', server_buffer) rest)))
      else
        (if dat = [] then (self\<lparr>h_running := False\<rparr>, (client_buffer, server_buffer), [], Next)
         else
           (case process_telnet_commands (server_buffer @ dat) (lit ''server_to_client'') of
              (processed_data, server_buffer') \<Rightarrow>
                (if processed_data \<noteq> [] then
                   (case inspect_block self parse_packet new_id now processed_data
                           (lit ''server_to_client'') of
                      Inl e \<Rightarrow> (self, (client_buffer, server_buffer'), [], Stop)
                    | Inr evs \<Rightarrow>
                        (case telnet_for_readable self parse_packet (client_buffer, server_buffer') rest of
                           (self', bufs', evs', c) \<Rightarrow>
                             (self', bufs', evs @ [SendClient processed_data] @ evs', c)))
                 else telnet_for_readable self parse_packet (client_buffer, server_buffer') rest))))"

text \<open>
  \<open>DNSProtocolHandler._proxy_data\<close>: one iteration. \<open>dat\<close> is the client's datagram,
  \<open>response\<close> the resolver's reply, \<open>None\<close> when the wait for it times out
  (\<open>except socket.timeout: continue\<close>).
\<close>

definition dns_iteration ::
  "handler \<Rightarrow> parser \<Rightarrow> pystr \<Rightarrow> real \<Rightarrow> bytes \<Rightarrow> pystr \<Rightarrow> real \<Rightarrow> bytes option \<Rightarrow>
   event list \<times> ctl" where
  "dns_iteration self parse_packet new_id now dat new_id2 now2 response =
     (if dat = [] then ([], Stop)
      else
        (case inspect_block self parse_packet new_id now dat (lit ''client_to_server'') of
           Inl e \<Rightarrow> ([], Stop)
         | Inr evs \<Rightarrow>
             (case response of
                None \<Rightarrow> (evs @ [SendServer dat], Next)
              | Some resp \<Rightarrow>
                  (case inspect_block self parse_packet new_id2 now2 resp (lit ''server_to_client'') of
                     Inl e \<Rightarrow> (evs @ [SendServer dat], Stop)
                   | Inr evs2 \<Rightarrow> (evs @ [SendServer dat] @ evs2 @ [SendClient resp], Next)))))"

section \<open>Paused packets in the relay loops\<close>

text \<open>
  C4 as stated fails: the loops have no wait. With \<open>pause_by_default\<close> set, the HTTP
  loop reads \<open>GET\<close> from the client, creates a packet whose paused flag is set, logs
  it, logs that it is paused, and sends its bytes to the server in the same pass over
  the readable sockets; no resume and no timeout is an input of that pass.
\<close>

theorem paused_packet_forwarded_counterexample:
  "h_pause_by_default example_handler \<and>
   http_for_readable example_handler (\<lambda>d r. Inr []) False
      [(ClientSocket, [71, 69, 84], lit ''id'', 7)]
     = (example_handler,
        [LogPacket \<lparr> bpk_id = lit ''id'', bpk_timestamp = 7, bpk_data = [71, 69, 84],
             bpk_source = (lit ''10.0.0.2'', 40000), bpk_destination = (lit ''10.0.0.9'', 80),
             bpk_protocol = lit ''http'', bpk_paused = True, bpk_metadata = [] \<rparr>,
         LogPaused (lit ''id'') (lit ''client_to_server''),
         SendServer [71, 69, 84]],
        Next)"
  by (simp add: inspect_block_def should_inspect_packet_def create_packet_def
        example_handler_def BasePacket_def lit_def)

text \<open>
  What follows makes "as for an unpaused packet" exact. \<open>unpaused\<close> is the handler
  with \<open>pause_by_default\<close> off; \<open>without_pause\<close> erases from a trace what a pause adds
  to it, the flag in the logged packet and the log line of the pause.
\<close>

definition unpaused :: "handler \<Rightarrow> handler" where
  "unpaused self = self\<lparr>h_pause_by_default := False\<rparr>"

fun unpaused_event :: "event \<Rightarrow> event list" where
  "unpaused_event (LogPacket p) = [LogPacket (p\<lparr>bpk_paused := False\<rparr>)]"
| "unpaused_event (LogPaused i d) = []"
| "unpaused_event (SendServer b) = [SendServer b]"
| "unpaused_event (SendClient b) = [SendClient b]"

definition without_pause :: "event list \<Rightarrow> event list" where
  "without_pause evs = concat (map unpaused_event evs)"

text \<open>
  A trace forwards every packet at once when each logged packet is followed, if its
  flag is set, by the log line of its pause (with its identifier), and then directly
  by the send of its bytes, to the server for \<open>client_to_server\<close> and to the client
  for \<open>server_to_client\<close>; nothing else comes between the log and the send, and no
  packet is left unsent at the end of the trace. \<open>pending\<close> is the packet that is
  logged and not yet sent.
\<close>

datatype pending = Idle | Logged base_packet | Announced base_packet pystr

fun forwarded_at_once :: "pending \<Rightarrow> event list \<Rightarrow> bool" where
  "forwarded_at_once Idle [] = True"
| "forwarded_at_once Idle (LogPacket p # es) = forwarded_at_once (Logged p) es"
| "forwarded_at_once Idle (SendServer b # es) = forwarded_at_once Idle es"
| "forwarded_at_once Idle (SendClient b # es) = forwarded_at_once Idle es"
| "forwarded_at_once (Logged p) (LogPaused i d # es) =
     (bpk_paused p \<and> i = bpk_id p \<and> forwarded_at_once (Announced p d) es)"
| "forwarded_at_once (Logged p) (SendServer b # es) =
     (\<not> bpk_paused p \<and> b = bpk_data p \<and> forwarded_at_once Idle es)"
| "forwarded_at_once (Logged p) (SendClient b # es) =
     (\<not> bpk_paused p \<and> b = bpk_data p \<and> forwarded_at_once Idle es)"
| "forwarded_at_once (Announced p d) (SendServer b # es) =
     (d = lit ''client_to_server'' \<and> b = bpk_data p \<and> forwarded_at_once Idle es)"
| "forwarded_at_once (Announced p d) (SendClient b # es) =
     (d = lit ''server_to_client'' \<and> b = bpk_data p \<and> forwarded_at_once Idle es)"
| "forwarded_at_once _ _ = False"

lemma create_packet_unpaused:
  "create_packet (unpaused self) parse_packet new_id now dat direction =
     (case create_packet self parse_packet new_id now dat direction of
        Inl e \<Rightarrow> Inl e
      | Inr p \<Rightarrow> Inr (p\<lparr>bpk_paused := False\<rparr>))"
  by (simp add: create_packet_def unpaused_def Let_def split: sum.splits)

lemma create_packet_data:
  "create_packet self parse_packet new_id now dat direction = Inr p \<Longrightarrow> bpk_data p = dat"
  by (auto simp: create_packet_def BasePacket_def Let_def split: sum.splits if_splits)

lemma inspect_block_unpaused:
  "inspect_block (unpaused self) parse_packet new_id now dat direction =
     (case inspect_block self parse_packet new_id now dat direction of
        Inl e \<Rightarrow> Inl e
      | Inr evs \<Rightarrow> Inr (without_pause evs))"
  by (simp add: inspect_block_def create_packet_unpaused should_inspect_packet_def
        without_pause_def split: sum.splits)

lemma inspect_block_events:
  assumes "inspect_block self parse_packet new_id now dat direction = Inr evs"
  shows "evs = [] \<or> (\<exists>p. bpk_data p = dat \<and>
           evs = LogPacket p # (if bpk_paused p then [LogPaused (bpk_id p) direction] else []))"
  using assms create_packet_data [of self parse_packet new_id now dat direction]
  by (auto simp: inspect_block_def split: sum.splits if_splits)

lemma inspect_then_send_server:
  assumes "inspect_block self parse_packet new_id now dat (lit ''client_to_server'') = Inr evs"
    and "forwarded_at_once Idle rest"
  shows "forwarded_at_once Idle (evs @ SendServer dat # rest)"
  using inspect_block_events [OF assms(1)] assms(2) by auto

lemma inspect_then_send_client:
  assumes "inspect_block self parse_packet new_id now dat (lit ''server_to_client'') = Inr evs"
    and "forwarded_at_once Idle rest"
  shows "forwarded_at_once Idle (evs @ SendClient dat # rest)"
  using inspect_block_events [OF assms(1)] assms(2) by auto

lemma unpaused_running:
  "unpaused (self\<lparr>h_running := False\<rparr>) = (unpaused self)\<lparr>h_running := False\<rparr>"
  by (simp add: unpaused_def)

lemma http_unpaused:
  "http_for_readable (unpaused self) parse_packet skip rs =
     (case http_for_readable self parse_packet skip rs of
        (self', evs, c) \<Rightarrow> (unpaused self', without_pause evs, c))"
proof (induction rs arbitrary: skip)
  case Nil
  show ?case by (simp add: without_pause_def)
next
  case (Cons r rs)
  obtain s dat new_id now where r: "r = (s, dat, new_id, now)" by (cases r)
  show ?case unfolding r
    using Cons.IH
    by (simp add: inspect_block_unpaused unpaused_running without_pause_def
          split: sum.splits prod.splits)
qed

lemma http_forwards:
  "http_for_readable self parse_packet skip rs = (self', evs, c) \<Longrightarrow> forwarded_at_once Idle evs"
proof (induction rs arbitrary: skip self' evs c)
  case Nil
  then show ?case by auto
next
  case (Cons r rs)
  obtain s dat new_id now where r: "r = (s, dat, new_id, now)" by (cases r)
  show ?case
    using Cons.prems Cons.IH unfolding r
    by (auto split: sum.splits prod.splits if_splits
          intro!: inspect_then_send_server inspect_then_send_client)
qed

lemma telnet_unpaused:
  "telnet_for_readable (unpaused self) parse_packet bufs rs =
     (case telnet_for_readable self parse_packet bufs rs of
        (self', bufs', evs, c) \<Rightarrow> (unpaused self', bufs', without_pause evs, c))"
proof (induction rs arbitrary: bufs)
  case Nil
  show ?case by (simp add: without_pause_def)
next
  case (Cons r rs)
  obtain s dat new_id now where r: "r = (s, dat, new_id, now)" by (cases r)
  obtain cb sb where bufs: "bufs = (cb, sb)" by (cases bufs)
  show ?case unfolding r bufs
    using Cons.IH
    by (simp add: inspect_block_unpaused unpaused_running without_pause_def
          split: sum.splits prod.splits)
qed

lemma telnet_forwards:
  "telnet_for_readable self parse_packet bufs rs = (self', bufs', evs, c) \<Longrightarrow>
   forwarded_at_once Idle evs"
proof (induction rs arbitrary: bufs self' bufs' evs c)
  case Nil
  then show ?case by auto
next
  case (Cons r rs)
  obtain s dat new_id now where r: "r = (s, dat, new_id, now)" by (cases r)
  obtain cb sb where bufs: "bufs = (cb, sb)" by (cases bufs)
  show ?case
    using Cons.prems Cons.IH unfolding r bufs
    by (auto split: sum.splits prod.splits if_splits
          intro!: inspect_then_send_server inspect_then_send_client)
qed

lemma dns_unpaused:
  "dns_iteration (unpaused self) parse_packet new_id now dat new_id2 now2 response =
     (case dns_iteration self parse_packet new_id now dat new_id2 now2 response of
        (evs, c) \<Rightarrow> (without_pause evs, c))"
  by (simp add: dns_iteration_def inspect_block_unpaused without_pause_def
        split: sum.splits option.splits)

lemma dns_forwards:
  "dns_iteration self parse_packet new_id now dat new_id2 now2 response = (evs, c) \<Longrightarrow>
   forwarded_at_once Idle evs"
  unfolding dns_iteration_def
  by (auto split: sum.splits option.splits if_splits
        intro!: inspect_then_send_server inspect_then_send_client)

text \<open>
  C4, as the code has it. For every pass of a relay loop (HTTP, Telnet) over any list
  of readable sockets, and for every iteration of the DNS loop, whatever the reads and
  in whatever order the directions come: every packet the loop makes is logged; if its
  paused flag is set the loop logs that it is paused; and the packet's bytes are sent
  on at once, as the very next event, with no wait for a resume or a timeout, so that
  no packet is ever suspended. And the pass is the pass of the same handler with
  \<open>pause_by_default\<close> off, up to the flag and the log line: the same sends in the same
  order in both directions, the same remainder buffers, the same running flag, the same
  way out of the iteration. For Telnet the packet's bytes are the processed part of
  the accumulation buffer.
\<close>

theorem paused_packet_forwarded_at_once:
  "(case http_for_readable self parse_packet skip rs of
      (self', evs, c) \<Rightarrow>
        forwarded_at_once Idle evs \<and>
        h_running (unpaused self') = h_running self' \<and>
        http_for_readable (unpaused self) parse_packet skip rs
          = (unpaused self', without_pause evs, c)) \<and>
   (case telnet_for_readable self parse_packet bufs rs of
      (self', bufs', evs, c) \<Rightarrow>
        forwarded_at_once Idle evs \<and>
        h_running (unpaused self') = h_running self' \<and>
        telnet_for_readable (unpaused self) parse_packet bufs rs
          = (unpaused self', bufs', without_pause evs, c)) \<and>
   (case dns_iteration self parse_packet new_id now dat new_id2 now2 response of
      (evs, c) \<Rightarrow>
        forwarded_at_once Idle evs \<and>
        dns_iteration (unpaused self) parse_packet new_id now dat new_id2 now2 response
          = (without_pause evs, c))"
proof -
  obtain h_self h_evs h_c where
    h: "http_for_readable self parse_packet skip rs = (h_self, h_evs, h_c)"
    by (cases "http_for_readable self parse_packet skip rs")
  obtain t_self t_bufs t_evs t_c where
    t: "telnet_for_readable self parse_packet bufs rs = (t_self, t_bufs, t_evs, t_c)"
    by (cases "telnet_for_readable self parse_packet bufs rs")
  obtain d_evs d_c where
    d: "dns_iteration self parse_packet new_id now dat new_id2 now2 response = (d_evs, d_c)"
    by (cases "dns_iteration self parse_packet new_id now dat new_id2 now2 response")
  have r: "h_running (unpaused x) = h_running x" for x by (simp add: unpaused_def)
  show ?thesis
    using http_forwards [OF h] telnet_forwards [OF t] dns_forwards [OF d]
    by (simp add: h t d r http_unpaused telnet_unpaused dns_unpaused)
qed

definition dns_handler :: handler where
  "dns_handler =
     \<lparr> h_client_address = (lit ''10.0.0.2'', 40000),
       h_server_socket = Some \<lparr> sock_peer = None \<rparr>,
       h_buffer_size = 4096, h_inspection_mode = lit ''both'', h_pause_by_default = True,
       h_running = True, h_protocol_name = lit ''dns'' \<rparr>"

definition paused_client_packet :: base_packet where
  "paused_client_packet =
     \<lparr> bpk_id = lit ''a'', bpk_timestamp = 1, bpk_data = [104, 105],
       bpk_source = (lit ''10.0.0.2'', 40000), bpk_destination = (lit ''10.0.0.9'', 80),
       bpk_protocol = lit ''http'', bpk_paused = True, bpk_metadata = [] \<rparr>"

definition paused_server_packet :: base_packet where
  "paused_server_packet =
     \<lparr> bpk_id = lit ''b'', bpk_timestamp = 2, bpk_data = [111, 107],
       bpk_source = (lit ''10.0.0.9'', 80), bpk_destination = (lit ''10.0.0.2'', 40000),
       bpk_protocol = lit ''http'', bpk_paused = True, bpk_metadata = [] \<rparr>"

definition both_directions :: "event list" where
  "both_directions =
     [LogPacket paused_client_packet, LogPaused (lit ''a'') (lit ''client_to_server''),
      SendServer [104, 105],
      LogPacket paused_server_packet, LogPaused (lit ''b'') (lit ''server_to_client''),
      SendClient [111, 107]]"

lemma both_directions_http:
  "http_for_readable example_handler (\<lambda>d r. Inr []) False
      [(ClientSocket, [104, 105], lit ''a'', 1), (ServerSocket, [111, 107], lit ''b'', 2)]
     = (example_handler, both_directions, Next)"
  by (simp add: inspect_block_def should_inspect_packet_def create_packet_def
        example_handler_def BasePacket_def lit_def both_directions_def
        paused_client_packet_def paused_server_packet_def)

lemma both_directions_telnet:
  "telnet_for_readable example_handler (\<lambda>d r. Inr []) ([], [])
      [(ClientSocket, [104, 105], lit ''a'', 1), (ServerSocket, [111, 107], lit ''b'', 2)]
     = (example_handler, ([], []), both_directions, Next)"
  by (simp add: inspect_block_def should_inspect_packet_def create_packet_def
        example_handler_def BasePacket_def lit_def both_directions_def
        paused_client_packet_def paused_server_packet_def
        process_telnet_commands_def IAC_def)

lemma both_directions_dns:
  "dns_iteration example_handler (\<lambda>d r. Inr []) (lit ''a'') 1 [104, 105] (lit ''b'') 2
      (Some [111, 107])
     = (both_directions, Next)"
  by (simp add: dns_iteration_def inspect_block_def should_inspect_packet_def create_packet_def
        example_handler_def BasePacket_def lit_def both_directions_def
        paused_client_packet_def paused_server_packet_def)

lemma unconnected_dns:
  "dns_iteration dns_handler (\<lambda>d r. Inr []) (lit ''a'') 1 [104, 105] (lit ''b'') 2
      (Some [111, 107])
     = ([], Stop)"
  by (simp add: dns_iteration_def inspect_block_def should_inspect_packet_def create_packet_def
        dns_handler_def lit_def)

lemma both_directions_unpaused:
  "without_pause both_directions =
     [LogPacket (paused_client_packet\<lparr>bpk_paused := False\<rparr>), SendServer [104, 105],
      LogPacket (paused_server_packet\<lparr>bpk_paused := False\<rparr>), SendClient [111, 107]]"
  by (simp add: without_pause_def both_directions_def)

text \<open>
  The theorem at work: a pass over the client's socket and then the server's, both
  packets paused, for HTTP and Telnet, and a DNS iteration with a query and its reply,
  on a handler whose upstream socket has a peer; and the DNS iteration on the socket
  \<open>_setup_server_connection\<close> makes, which has none, where \<open>create_packet\<close> fails and
  the loop ends before it sends anything.
\<close>

theorem paused_packet_forwarded_at_once_witness:
  "forwarded_at_once Idle both_directions \<and>
   http_for_readable (unpaused example_handler) (\<lambda>d r. Inr []) False
      [(ClientSocket, [104, 105], lit ''a'', 1), (ServerSocket, [111, 107], lit ''b'', 2)]
     = (unpaused example_handler,
        [LogPacket (paused_client_packet\<lparr>bpk_paused := False\<rparr>), SendServer [104, 105],
         LogPacket (paused_server_packet\<lparr>bpk_paused := False\<rparr>), SendClient [111, 107]],
        Next) \<and>
   telnet_for_readable (unpaused example_handler) (\<lambda>d r. Inr []) ([], [])
      [(ClientSocket, [104, 105], lit ''a'', 1), (ServerSocket, [111, 107], lit ''b'', 2)]
     = (unpaused example_handler, ([], []),
        [LogPacket (paused_client_packet\<lparr>bpk_paused := False\<rparr>), SendServer [104, 105],
         LogPacket (paused_server_packet\<lparr>bpk_paused := False\<rparr>), SendClient [111, 107]],
        Next) \<and>
   dns_iteration (unpaused example_handler) (\<lambda>d r. Inr []) (lit ''a'') 1 [104, 105]
      (lit ''b'') 2 (Some [111, 107])
     = ([LogPacket (paused_client_packet\<lparr>bpk_paused := False\<rparr>), SendServer [104, 105],
         LogPacket (paused_server_packet\<lparr>bpk_paused := False\<rparr>), SendClient [111, 107]],
        Next) \<and>
   dns_iteration (unpaused dns_handler) (\<lambda>d r. Inr []) (lit ''a'') 1 [104, 105]
      (lit ''b'') 2 (Some [111, 107])
     = ([], Stop)"
proof -
  have w: "without_pause [] = []" by (simp add: without_pause_def)
  note connected = paused_packet_forwarded_at_once
    [of example_handler "\<lambda>d r. Inr []" False
        "[(ClientSocket, [104, 105], lit ''a'', 1), (ServerSocket, [111, 107], lit ''b'', 2)]"
        "([], [])" "lit ''a''" 1 "[104, 105]" "lit ''b''" 2 "Some [111, 107]",
     unfolded both_directions_http both_directions_telnet both_directions_dns prod.case
       both_directions_unpaused]
  note unconnected = paused_packet_forwarded_at_once
    [of dns_handler "\<lambda>d r. Inr []" False "[]" "([], [])"
        "lit ''a''" 1 "[104, 105]" "lit ''b''" 2 "Some [111, 107]",
     unfolded unconnected_dns prod.case w]
  from connected unconnected show ?thesis by blast
qed

section \<open>proxy/packet.py: save and load\<close>

lemma lit_eq_iff: "lit a = lit b \<longleftrightarrow> a = b"
proof -
  have "inj (of_char :: char \<Rightarrow> nat)" by (rule injI) simp
  then show ?thesis unfolding lit_def by (rule inj_map_eq_map)
qed

text \<open>
  A JSON document, as \<open>json.dump\<close> writes and \<open>json.load\<close> reads it. The text of
  the file is not modelled: the library's writer and reader are taken at the level of
  the document they exchange, where integers and floats stay apart as they do in the
  text (\<open>1\<close> and \<open>1.0\<close>).
\<close>

datatype json =
    JNull
  | JBool bool
  | JInt int
  | JFloat real
  | JStr pystr
  | JArr "json list"
  | JObj "(pystr \<times> json) list"

text \<open>
  The encoder: a tuple is written as an array, like a list; \<open>bytes\<close> and
  \<open>bytearray\<close> raise \<open>TypeError\<close>.
\<close>

fun to_json :: "pyval \<Rightarrow> exn + json"
  and to_json_list :: "pyval list \<Rightarrow> exn + json list"
  and to_json_items :: "(pystr \<times> pyval) list \<Rightarrow> exn + (pystr \<times> json) list" where
  "to_json PNone = Inr JNull"
| "to_json (PBool b) = Inr (JBool b)"
| "to_json (PInt i) = Inr (JInt i)"
| "to_json (PFloat f) = Inr (JFloat f)"
| "to_json (PStr s) = Inr (JStr s)"
| "to_json (PBytes b) = Inl TypeError"
| "to_json (PByteArray b) = Inl TypeError"
| "to_json (PList xs) = (case to_json_list xs of Inl e \<Rightarrow> Inl e | Inr js \<Rightarrow> Inr (JArr js))"
| "to_json (PTuple xs) = (case to_json_list xs of Inl e \<Rightarrow> Inl e | Inr js \<Rightarrow> Inr (JArr js))"
| "to_json (PDict kvs) = (case to_json_items kvs of Inl e \<Rightarrow> Inl e | Inr js \<Rightarrow> Inr (JObj js))"
| "to_json_list [] = Inr []"
| "to_json_list (x # xs) =
     (case to_json x of
        Inl e \<Rightarrow> Inl e
      | Inr j \<Rightarrow> (case to_json_list xs of Inl e \<Rightarrow> Inl e | Inr js \<Rightarrow> Inr (j # js)))"
| "to_json_items [] = Inr []"
| "to_json_items ((k, v) # kvs) =
     (case to_json v of
        Inl e \<Rightarrow> Inl e
      | Inr j \<Rightarrow> (case to_json_items kvs of Inl e \<Rightarrow> Inl e | Inr js \<Rightarrow> Inr ((k, j) # js)))"

text \<open>\<open>dict\<close> built from pairs in order: a repeated key keeps its first position and
  its last value.\<close>

definition build_dict :: "(pystr \<times> pyval) list \<Rightarrow> pydict" where
  "build_dict kvs = foldl (\<lambda>d (k, v). dict_set d k v) [] kvs"

text \<open>The decoder: an array becomes a list, an object a \<open>dict\<close>.\<close>

fun from_json :: "json \<Rightarrow> pyval"
  and from_json_list :: "json list \<Rightarrow> pyval list"
  and from_json_items :: "(pystr \<times> json) list \<Rightarrow> (pystr \<times> pyval) list" where
  "from_json JNull = PNone"
| "from_json (JBool b) = PBool b"
| "from_json (JInt i) = PInt i"
| "from_json (JFloat f) = PFloat f"
| "from_json (JStr s) = PStr s"
| "from_json (JArr js) = PList (from_json_list js)"
| "from_json (JObj kvs) = PDict (build_dict (from_json_items kvs))"
| "from_json_list [] = []"
| "from_json_list (j # js) = from_json j # from_json_list js"
| "from_json_items [] = []"
| "from_json_items ((k, j) # kvs) = (k, from_json j) # from_json_items kvs"

text \<open>
  A value is JSON-representable when it is \<open>None\<close>, a boolean, a number, a string, a
  list of such values or a \<open>dict\<close> of such values: the values a JSON document
  decodes to. (A \<open>dict\<close> has each key once; the association list must say so.)
\<close>

fun json_representable :: "pyval \<Rightarrow> bool"
  and json_representable_list :: "pyval list \<Rightarrow> bool"
  and json_representable_items :: "(pystr \<times> pyval) list \<Rightarrow> bool" where
  "json_representable PNone = True"
| "json_representable (PBool b) = True"
| "json_representable (PInt i) = True"
| "json_representable (PFloat f) = True"
| "json_representable (PStr s) = True"
| "json_representable (PBytes b) = False"
| "json_representable (PByteArray b) = False"
| "json_representable (PList xs) = json_representable_list xs"
| "json_representable (PTuple xs) = False"
| "json_representable (PDict kvs) = (distinct (map fst kvs) \<and> json_representable_items kvs)"
| "json_representable_list [] = True"
| "json_representable_list (x # xs) = (json_representable x \<and> json_representable_list xs)"
| "json_representable_items [] = True"
| "json_representable_items ((k, v) # kvs) = (json_representable v \<and> json_representable_items kvs)"

lemma dict_set_fresh: "k \<notin> fst ` set d \<Longrightarrow> dict_set d k v = d @ [(k, v)]"
  by (induction d) (auto simp: dict_set_def)

lemma build_dict_distinct_aux:
  "distinct (map fst (acc @ kvs)) \<Longrightarrow>
   foldl (\<lambda>d (k, v). dict_set d k v) acc kvs = acc @ kvs"
proof (induction kvs arbitrary: acc)
  case Nil
  then show ?case by simp
next
  case (Cons kv kvs)
  obtain k v where kv: "kv = (k, v)" by (cases kv)
  from Cons.prems kv have fresh: "k \<notin> fst ` set acc" by auto
  from Cons.prems kv have "distinct (map fst ((acc @ [(k, v)]) @ kvs))" by simp
  from Cons.IH [OF this] show ?case using kv fresh by (simp add: dict_set_fresh)
qed

lemma build_dict_distinct: "distinct (map fst kvs) \<Longrightarrow> build_dict kvs = kvs"
  using build_dict_distinct_aux [of "[]" kvs] by (simp add: build_dict_def)

lemma to_json_items_keys: "to_json_items kvs = Inr js \<Longrightarrow> map fst js = map fst kvs"
  by (induction kvs arbitrary: js) (auto split: sum.splits)

lemma from_json_items_keys: "map fst (from_json_items js) = map fst js"
  by (induction js) auto

lemma json_roundtrip:
  "json_representable v \<Longrightarrow> \<exists>j. to_json v = Inr j \<and> from_json j = v"
  "json_representable_list xs \<Longrightarrow> \<exists>js. to_json_list xs = Inr js \<and> from_json_list js = xs"
  "json_representable_items kvs \<Longrightarrow>
     \<exists>js. to_json_items kvs = Inr js \<and> from_json_items js = kvs"
proof (induction v and xs and kvs rule: to_json_to_json_list_to_json_items.induct)
  case (10 kvs)
  then obtain js where js: "to_json_items kvs = Inr js" "from_json_items js = kvs" by auto
  from 10 have "distinct (map fst kvs)" by simp
  then have "build_dict kvs = kvs" by (rule build_dict_distinct)
  with js show ?case by simp
qed auto

text \<open>\<open>bytes.hex()\<close>: two lower-case hexadecimal digits for each byte.\<close>

definition hex_digit :: "nat \<Rightarrow> codepoint" where
  "hex_digit n = (if n < 10 then 48 + n else 87 + n)"

definition bytes_hex :: "bytes \<Rightarrow> pystr" where
  "bytes_hex bs = concat (map (\<lambda>b. [hex_digit (unat b div 16), hex_digit (unat b mod 16)]) bs)"

text \<open>\<open>str(i)\<close> of an integer, in decimal.\<close>

fun dec_digits :: "nat \<Rightarrow> pystr" where
  "dec_digits n = (if n < 10 then [48 + n] else dec_digits (n div 10) @ [48 + n mod 10])"

declare dec_digits.simps [simp del]

definition str_int :: "int \<Rightarrow> pystr" where
  "str_int i = (if i < 0 then 45 # dec_digits (nat (- i)) else dec_digits (nat i))"

text \<open>\<open>int(x)\<close> of a float: truncation towards zero.\<close>

definition int_of_float :: "real \<Rightarrow> int" where
  "int_of_float x = (if 0 \<le> x then \<lfloor>x\<rfloor> else \<lceil>x\<rceil>)"

text \<open>\<open>os.path.join\<close> of two components (POSIX).\<close>

definition os_path_join :: "pystr \<Rightarrow> pystr \<Rightarrow> pystr" where
  "os_path_join a b =
     (if b \<noteq> [] \<and> hd b = 47 then b
      else if a = [] \<or> last a = 47 then a @ b
      else a @ [47] @ b)"

definition to_dict :: "packet \<Rightarrow> pydict" where
  "to_dict self =
     [(lit ''id'', PStr (pkt_id self)),
      (lit ''timestamp'', PFloat (pkt_timestamp self)),
      (lit ''source'', PTuple [PStr (fst (pkt_source self)), PInt (snd (pkt_source self))]),
      (lit ''destination'',
         PTuple [PStr (fst (pkt_destination self)), PInt (snd (pkt_destination self))]),
      (lit ''protocol'', PStr (pkt_protocol self)),
      (lit ''direction'', PStr (pkt_direction self)),
      (lit ''data_hex'', PStr (bytes_hex (pkt_data self))),
      (lit ''data_length'', PInt (int (length (pkt_data self)))),
      (lit ''paused'', PBool (pkt_paused self)),
      (lit ''modified'', PBool (pkt_modified self)),
      (lit ''metadata'', PDict (pkt_metadata self))]"

text \<open>
  The file system: the files by path, and which paths the process may create or open
  for writing (\<open>os.makedirs\<close> and \<open>open(..., 'w')\<close> raise elsewhere). A file holds a
  JSON document, raw bytes, or the broken text a failed \<open>json.dump\<close> leaves behind.
\<close>

datatype file_content = JsonText json | Blob bytes | Truncated

record filesystem =
  fs_files :: "pystr \<Rightarrow> file_content option"
  fs_writable :: "pystr \<Rightarrow> bool"

text \<open>\<open>Packet.save\<close>: the returned path (\<open>None\<close> after an exception) and the file
  system after the call.\<close>

definition save :: "packet \<Rightarrow> pystr \<Rightarrow> filesystem \<Rightarrow> pystr option \<times> filesystem" where
  "save self storage_path fs =
     (let filename = str_int (int_of_float (pkt_timestamp self)) @ lit ''_'' @ pkt_protocol self
                       @ lit ''_'' @ pkt_id self @ lit ''.packet'';
          full_path = os_path_join storage_path filename
      in
        if \<not> fs_writable fs storage_path then (None, fs)
        else if \<not> fs_writable fs (full_path @ lit ''.json'') then (None, fs)
        else
          (case to_json (PDict (to_dict self)) of
             Inl e \<Rightarrow> (None, fs\<lparr>fs_files := (fs_files fs)(full_path @ lit ''.json'' \<mapsto> Truncated)\<rparr>)
           | Inr doc \<Rightarrow>
               (let fs1 = fs\<lparr>fs_files := (fs_files fs)(full_path @ lit ''.json'' \<mapsto> JsonText doc)\<rparr>
                in
                  if \<not> fs_writable fs (full_path @ lit ''.bin'') then (None, fs1)
                  else (Some full_path,
                        fs1\<lparr>fs_files := (fs_files fs1)(full_path @ lit ''.bin'' \<mapsto> Blob (pkt_data self))\<rparr>))))"

text \<open>
  The reads \<open>load\<close> makes of the decoded document. The record of a packet is typed, so
  a field of another type than \<open>save\<close> writes (which Python would store as it is)
  yields no packet here. \<open>tuple(metadata['source'])\<close> turns the decoded list into the
  address pair.
\<close>

definition get_str :: "pydict \<Rightarrow> pystr \<Rightarrow> pystr option" where
  "get_str d k = (case dict_get d k of Some (PStr s) \<Rightarrow> Some s | _ \<Rightarrow> None)"

definition get_float :: "pydict \<Rightarrow> pystr \<Rightarrow> real option" where
  "get_float d k = (case dict_get d k of Some (PFloat f) \<Rightarrow> Some f | _ \<Rightarrow> None)"

definition get_bool :: "pydict \<Rightarrow> pystr \<Rightarrow> bool option" where
  "get_bool d k = (case dict_get d k of Some (PBool b) \<Rightarrow> Some b | _ \<Rightarrow> None)"

definition get_bool_default :: "pydict \<Rightarrow> pystr \<Rightarrow> bool \<Rightarrow> bool option" where
  "get_bool_default d k dflt =
     (case dict_get d k of None \<Rightarrow> Some dflt | Some (PBool b) \<Rightarrow> Some b | _ \<Rightarrow> None)"

definition get_dict :: "pydict \<Rightarrow> pystr \<Rightarrow> pydict option" where
  "get_dict d k = (case dict_get d k of Some (PDict m) \<Rightarrow> Some m | _ \<Rightarrow> None)"

definition get_address :: "pydict \<Rightarrow> pystr \<Rightarrow> address option" where
  "get_address d k =
     (case dict_get d k of Some (PList [PStr h, PInt p]) \<Rightarrow> Some (h, p) | _ \<Rightarrow> None)"

text \<open>\<open>Packet.load\<close>: the packet, or \<open>None\<close> after an exception. The identifier and
  the time of the constructor are overwritten by the stored ones.\<close>

definition load :: "pystr \<Rightarrow> filesystem \<Rightarrow> packet option" where
  "load packet_path fs =
     (case fs_files fs (packet_path @ lit ''.json'') of
        Some (JsonText doc) \<Rightarrow>
          (case fs_files fs (packet_path @ lit ''.bin'') of
             Some (Blob dat) \<Rightarrow>
               (case from_json doc of
                  PDict metadata \<Rightarrow>
                    do {
                      src \<leftarrow> get_address metadata (lit ''source'');
                      dst \<leftarrow> get_address metadata (lit ''destination'');
                      proto \<leftarrow> get_str metadata (lit ''protocol'');
                      dir \<leftarrow> get_str metadata (lit ''direction'');
                      pid \<leftarrow> get_str metadata (lit ''id'');
                      ts \<leftarrow> get_float metadata (lit ''timestamp'');
                      pa \<leftarrow> get_bool metadata (lit ''paused'');
                      mo \<leftarrow> get_bool_default metadata (lit ''modified'') False;
                      md \<leftarrow> get_dict metadata (lit ''metadata'');
                      Some ((Packet pid ts dat src dst proto dir)
                              \<lparr>pkt_paused := pa, pkt_modified := mo, pkt_metadata := md\<rparr>)
                    }
                | _ \<Rightarrow> None)
           | _ \<Rightarrow> None)
      | _ \<Rightarrow> None)"

lemma to_json_to_dict:
  assumes "json_representable (PDict (pkt_metadata p))"
  shows "\<exists>doc. to_json (PDict (to_dict p)) = Inr doc \<and>
           from_json doc = PDict
             [(lit ''id'', PStr (pkt_id p)),
              (lit ''timestamp'', PFloat (pkt_timestamp p)),
              (lit ''source'', PList [PStr (fst (pkt_source p)), PInt (snd (pkt_source p))]),
              (lit ''destination'',
                 PList [PStr (fst (pkt_destination p)), PInt (snd (pkt_destination p))]),
              (lit ''protocol'', PStr (pkt_protocol p)),
              (lit ''direction'', PStr (pkt_direction p)),
              (lit ''data_hex'', PStr (bytes_hex (pkt_data p))),
              (lit ''data_length'', PInt (int (length (pkt_data p)))),
              (lit ''paused'', PBool (pkt_paused p)),
              (lit ''modified'', PBool (pkt_modified p)),
              (lit ''metadata'', PDict (pkt_metadata p))]"
proof -
  from assms have d: "distinct (map fst (pkt_metadata p))"
    and items: "json_representable_items (pkt_metadata p)" by simp_all
  from json_roundtrip(3) [OF items] obtain js where
    js: "to_json_items (pkt_metadata p) = Inr js" "from_json_items js = pkt_metadata p" by blast
  have enc: "to_json (PDict (to_dict p)) = Inr (JObj
          [(lit ''id'', JStr (pkt_id p)),
           (lit ''timestamp'', JFloat (pkt_timestamp p)),
           (lit ''source'', JArr [JStr (fst (pkt_source p)), JInt (snd (pkt_source p))]),
           (lit ''destination'',
              JArr [JStr (fst (pkt_destination p)), JInt (snd (pkt_destination p))]),
           (lit ''protocol'', JStr (pkt_protocol p)),
           (lit ''direction'', JStr (pkt_direction p)),
           (lit ''data_hex'', JStr (bytes_hex (pkt_data p))),
           (lit ''data_length'', JInt (int (length (pkt_data p)))),
           (lit ''paused'', JBool (pkt_paused p)),
           (lit ''modified'', JBool (pkt_modified p)),
           (lit ''metadata'', JObj js)])"
    using js(1) by (simp add: to_dict_def)
  have bd1: "build_dict (pkt_metadata p) = pkt_metadata p"
    using d by (rule build_dict_distinct)
  have bd2: "build_dict
          [(lit ''id'', PStr (pkt_id p)),
              (lit ''timestamp'', PFloat (pkt_timestamp p)),
              (lit ''source'', PList [PStr (fst (pkt_source p)), PInt (snd (pkt_source p))]),
              (lit ''destination'',
                 PList [PStr (fst (pkt_destination p)), PInt (snd (pkt_destination p))]),
              (lit ''protocol'', PStr (pkt_protocol p)),
              (lit ''direction'', PStr (pkt_direction p)),
              (lit ''data_hex'', PStr (bytes_hex (pkt_data p))),
              (lit ''data_length'', PInt (int (length (pkt_data p)))),
              (lit ''paused'', PBool (pkt_paused p)),
              (lit ''modified'', PBool (pkt_modified p)),
              (lit ''metadata'', PDict (pkt_metadata p))] =
          [(lit ''id'', PStr (pkt_id p)),
              (lit ''timestamp'', PFloat (pkt_timestamp p)),
              (lit ''source'', PList [PStr (fst (pkt_source p)), PInt (snd (pkt_source p))]),
              (lit ''destination'',
                 PList [PStr (fst (pkt_destination p)), PInt (snd (pkt_destination p))]),
              (lit ''protocol'', PStr (pkt_protocol p)),
              (lit ''direction'', PStr (pkt_direction p)),
              (lit ''data_hex'', PStr (bytes_hex (pkt_data p))),
              (lit ''data_length'', PInt (int (length (pkt_data p)))),
              (lit ''paused'', PBool (pkt_paused p)),
              (lit ''modified'', PBool (pkt_modified p)),
              (lit ''metadata'', PDict (pkt_metadata p))]"
    by (rule build_dict_distinct) (simp add: lit_eq_iff)
  show ?thesis unfolding enc by (simp add: js(2) bd1 bd2)
qed

lemma json_bin_paths_differ: "path @ lit ''.json'' \<noteq> path @ lit ''.bin''"
  by (simp add: lit_eq_iff)

text \<open>
  C1. For every packet whose metadata values are JSON-representable, saving it to a
  storage path and then loading from the returned path yields a packet equal to it
  field for field: identifier, timestamp, data, source, destination, protocol,
  direction, paused, modified and metadata.
\<close>

theorem load_save_roundtrip:
  assumes "json_representable (PDict (pkt_metadata p))"
    and "save p storage_path fs = (Some path, fs')"
  shows "load path fs' = Some p"
proof -
  from to_json_to_dict [OF assms(1)] obtain doc where
    enc: "to_json (PDict (to_dict p)) = Inr doc"
    and dec: "from_json doc = PDict
             [(lit ''id'', PStr (pkt_id p)),
              (lit ''timestamp'', PFloat (pkt_timestamp p)),
              (lit ''source'', PList [PStr (fst (pkt_source p)), PInt (snd (pkt_source p))]),
              (lit ''destination'',
                 PList [PStr (fst (pkt_destination p)), PInt (snd (pkt_destination p))]),
              (lit ''protocol'', PStr (pkt_protocol p)),
              (lit ''direction'', PStr (pkt_direction p)),
              (lit ''data_hex'', PStr (bytes_hex (pkt_data p))),
              (lit ''data_length'', PInt (int (length (pkt_data p)))),
              (lit ''paused'', PBool (pkt_paused p)),
              (lit ''modified'', PBool (pkt_modified p)),
              (lit ''metadata'', PDict (pkt_metadata p))]" by blast
  from assms(2) have fs': "fs' = fs\<lparr>fs_files := (fs_files fs)
       (path @ lit ''.json'' \<mapsto> JsonText doc, path @ lit ''.bin'' \<mapsto> Blob (pkt_data p))\<rparr>"
    unfolding save_def Let_def enc by (auto split: if_splits)
  have f1: "fs_files fs' (path @ lit ''.json'') = Some (JsonText doc)"
    unfolding fs' using json_bin_paths_differ [of path] by simp
  have f2: "fs_files fs' (path @ lit ''.bin'') = Some (Blob (pkt_data p))"
    unfolding fs' by simp
  have "load path fs' =
        Some ((Packet (pkt_id p) (pkt_timestamp p) (pkt_data p) (pkt_source p)
                 (pkt_destination p) (pkt_protocol p) (pkt_direction p))
                \<lparr>pkt_paused := pkt_paused p, pkt_modified := pkt_modified p,
                 pkt_metadata := pkt_metadata p\<rparr>)"
    unfolding load_def
    by (simp add: f1 f2 dec get_address_def get_str_def get_float_def get_bool_def get_bool_default_def
          get_dict_def dict_get_def lit_eq_iff)
  then show ?thesis by (simp add: Packet_def)
qed

definition example_packet :: packet where
  "example_packet =
     \<lparr> pkt_id = lit ''id1'', pkt_timestamp = 5, pkt_data = [71, 69, 84],
       pkt_source = (lit ''10.0.0.2'', 40000), pkt_destination = (lit ''10.0.0.9'', 80),
       pkt_protocol = lit ''http'', pkt_direction = lit ''client_to_server'',
       pkt_paused = True, pkt_modified = True,
       pkt_metadata = [(lit ''method'', PStr (lit ''GET'')),
                       (lit ''sizes'', PList [PInt 1, PNone])] \<rparr>"

definition empty_fs :: filesystem where
  "empty_fs = \<lparr> fs_files = (\<lambda>p. None), fs_writable = (\<lambda>p. True) \<rparr>"

theorem load_save_roundtrip_witness:
  "json_representable (PDict (pkt_metadata example_packet)) \<and>
   fst (save example_packet (lit ''data'') empty_fs) = Some (lit ''data/5_http_id1.packet'') \<and>
   load (lit ''data/5_http_id1.packet'') (snd (save example_packet (lit ''data'') empty_fs))
     = Some example_packet"
proof -
  have h1: "json_representable (PDict (pkt_metadata example_packet))"
    by (simp add: example_packet_def lit_eq_iff)
  have path: "fst (save example_packet (lit ''data'') empty_fs) = Some (lit ''data/5_http_id1.packet'')"
    by (simp add: save_def Let_def example_packet_def empty_fs_def to_dict_def str_int_def
          int_of_float_def os_path_join_def dec_digits.simps lit_def)
  then have h2: "save example_packet (lit ''data'') empty_fs =
                 (Some (lit ''data/5_http_id1.packet''), snd (save example_packet (lit ''data'') empty_fs))"
    by (simp add: prod_eq_iff)
  from load_save_roundtrip [OF h1 h2] h1 path show ?thesis by simp
qed


text \<open>
  A tuple is outside the JSON-representable values: the encoder accepts it, but it is
  written as an array and comes back as a list.
\<close>

lemma tuple_comes_back_as_list:
  "to_json (PTuple [PInt 1, PInt 2]) = Inr (JArr [JInt 1, JInt 2]) \<and>
   from_json (JArr [JInt 1, JInt 2]) = PList [PInt 1, PInt 2]"
  by simp

section \<open>Text helpers of the protocol parsers\<close>

text \<open>
  \<open>bytes.decode('utf-8', 'ignore')\<close>: a well-formed sequence yields its code point;
  an ill-formed one is dropped, the lead byte together with the continuation bytes
  that were valid up to the offending byte or the end of the data. Overlong forms,
  surrogates and values above U+10FFFF are ill-formed.
\<close>

definition is_continuation :: "byte \<Rightarrow> bool" where
  "is_continuation c = (128 \<le> unat c \<and> unat c < 192)"

text \<open>The second byte of a three- or four-byte sequence has a narrower range after
  some lead bytes.\<close>

definition second_byte_ok :: "nat \<Rightarrow> byte \<Rightarrow> bool" where
  "second_byte_ok lead c =
     (is_continuation c \<and>
      (lead = 224 \<longrightarrow> 160 \<le> unat c) \<and> (lead = 237 \<longrightarrow> unat c < 160) \<and>
      (lead = 240 \<longrightarrow> 144 \<le> unat c) \<and> (lead = 244 \<longrightarrow> unat c < 144))"

fun utf8_decode_ignore :: "bytes \<Rightarrow> pystr" where
  "utf8_decode_ignore [] = []"
| "utf8_decode_ignore (b # rest) =
     (let n = unat b in
      if n < 128 then n # utf8_decode_ignore rest
      else if 194 \<le> n \<and> n < 224 then
        (case rest of
           [] \<Rightarrow> []
         | c1 # r1 \<Rightarrow>
             if is_continuation c1
             then ((n - 192) * 64 + (unat c1 - 128)) # utf8_decode_ignore r1
             else utf8_decode_ignore rest)
      else if 224 \<le> n \<and> n < 240 then
        (case rest of
           [] \<Rightarrow> []
         | c1 # r1 \<Rightarrow>
             if second_byte_ok n c1 then
               (case r1 of
                  [] \<Rightarrow> []
                | c2 # r2 \<Rightarrow>
                    if is_continuation c2
                    then ((n - 224) * 4096 + (unat c1 - 128) * 64 + (unat c2 - 128))
                           # utf8_decode_ignore r2
                    else utf8_decode_ignore r1)
             else utf8_decode_ignore rest)
      else if 240 \<le> n \<and> n < 245 then
        (case rest of
           [] \<Rightarrow> []
         | c1 # r1 \<Rightarrow>
             if second_byte_ok n c1 then
               (case r1 of
                  [] \<Rightarrow> []
                | c2 # r2 \<Rightarrow>
                    if is_continuation c2 then
                      (case r2 of
                         [] \<Rightarrow> []
                       | c3 # r3 \<Rightarrow>
                           if is_continuation c3
                           then ((n - 240) * 262144 + (unat c1 - 128) * 4096
                                   + (unat c2 - 128) * 64 + (unat c3 - 128))
                                  # utf8_decode_ignore r3
                           else utf8_decode_ignore r2)
                    else utf8_decode_ignore r1)
             else utf8_decode_ignore rest)
      else utf8_decode_ignore rest)"

text \<open>\<open>sep.join(parts)\<close>.\<close>

fun str_join :: "pystr \<Rightarrow> pystr list \<Rightarrow> pystr" where
  "str_join sep [] = []"
| "str_join sep [p] = p"
| "str_join sep (p # q # ps) = p @ sep @ str_join sep (q # ps)"

text \<open>\<open>str(e)\<close> of a caught exception: the text an \<open>IndexError\<close> or a
  \<open>ValueError\<close> carries. (No other exception is raised inside a parser.)\<close>

fun str_exn :: "exn \<Rightarrow> pystr" where
  "str_exn (IndexError m) = m"
| "str_exn (ValueError m) = m"
| "str_exn _ = []"

section \<open>protocols/dns.py\<close>

text \<open>\<open>struct.unpack('!H', ...)\<close>: a big-endian 16-bit value from two bytes.\<close>

definition be16 :: "byte \<Rightarrow> byte \<Rightarrow> 16 word" where
  "be16 hi lo = push_bit 8 (ucast hi) OR ucast lo"

definition opcode_name :: "16 word \<Rightarrow> pystr" where
  "opcode_name opcode =
     (if opcode = 0 then lit ''QUERY'' else if opcode = 1 then lit ''IQUERY''
      else if opcode = 2 then lit ''STATUS'' else if opcode = 3 then lit ''NOTIFY''
      else if opcode = 4 then lit ''UPDATE''
      else lit ''UNKNOWN ('' @ str_int (uint opcode) @ lit '')'')"

definition rcode_name :: "16 word \<Rightarrow> pystr" where
  "rcode_name rcode =
     (if rcode = 0 then lit ''NOERROR'' else if rcode = 1 then lit ''FORMERR''
      else if rcode = 2 then lit ''SERVFAIL'' else if rcode = 3 then lit ''NXDOMAIN''
      else if rcode = 4 then lit ''NOTIMP'' else if rcode = 5 then lit ''REFUSED''
      else lit ''UNKNOWN ('' @ str_int (uint rcode) @ lit '')'')"

definition qtype_name :: "16 word \<Rightarrow> pystr" where
  "qtype_name qtype =
     (if qtype = 1 then lit ''A'' else if qtype = 2 then lit ''NS''
      else if qtype = 5 then lit ''CNAME'' else if qtype = 6 then lit ''SOA''
      else if qtype = 12 then lit ''PTR'' else if qtype = 15 then lit ''MX''
      else if qtype = 16 then lit ''TXT'' else if qtype = 28 then lit ''AAAA''
      else if qtype = 33 then lit ''SRV'' else if qtype = 255 then lit ''ANY''
      else lit ''TYPE'' @ str_int (uint qtype))"

definition qclass_name :: "16 word \<Rightarrow> pystr" where
  "qclass_name qclass =
     (if qclass = 1 then lit ''IN'' else if qclass = 2 then lit ''CS''
      else if qclass = 3 then lit ''CH'' else if qclass = 4 then lit ''HS''
      else if qclass = 255 then lit ''ANY''
      else lit ''CLASS'' @ str_int (uint qclass))"

text \<open>The header fields and the decoded flags, in the order the code stores them;
  \<open>dat\<close> has at least 12 bytes.\<close>

definition dns_header_metadata :: "bytes \<Rightarrow> pydict" where
  "dns_header_metadata dat =
     (let ident = be16 (dat ! 0) (dat ! 1);
          flags = be16 (dat ! 2) (dat ! 3);
          qdcount = be16 (dat ! 4) (dat ! 5);
          ancount = be16 (dat ! 6) (dat ! 7);
          nscount = be16 (dat ! 8) (dat ! 9);
          arcount = be16 (dat ! 10) (dat ! 11);
          qr = drop_bit 15 flags AND 1;
          opcode = drop_bit 11 flags AND 15;
          aa = drop_bit 10 flags AND 1;
          tc = drop_bit 9 flags AND 1;
          rd = drop_bit 8 flags AND 1;
          ra = drop_bit 7 flags AND 1;
          z = drop_bit 4 flags AND 7;
          rcode = flags AND 15
      in
        [(lit ''transaction_id'', PInt (uint ident)),
         (lit ''query_count'', PInt (uint qdcount)),
         (lit ''answer_count'', PInt (uint ancount)),
         (lit ''authority_count'', PInt (uint nscount)),
         (lit ''additional_count'', PInt (uint arcount)),
         (lit ''is_response'', PBool (qr \<noteq> 0)),
         (lit ''opcode'', PInt (uint opcode)),
         (lit ''authoritative'', PBool (aa \<noteq> 0)),
         (lit ''truncated'', PBool (tc \<noteq> 0)),
         (lit ''recursion_desired'', PBool (rd \<noteq> 0)),
         (lit ''recursion_available'', PBool (ra \<noteq> 0)),
         (lit ''response_code'', PInt (uint rcode)),
         (lit ''opcode_name'', PStr (opcode_name opcode)),
         (lit ''response_code_name'', PStr (rcode_name rcode))])"

text \<open>
  The \<open>while True\<close> loop over the labels of the question name. \<open>data[offset]\<close> raises
  \<open>IndexError\<close> past the end of the packet; a slice past the end is cut short.
\<close>

function dns_name_loop :: "bytes \<Rightarrow> nat \<Rightarrow> pystr list \<Rightarrow> exn + (pystr list \<times> nat)" where
  "dns_name_loop dat offset domain_parts =
     (if length dat \<le> offset then Inl (IndexError (lit ''index out of range''))
      else
        (let len = dat ! offset; offset1 = offset + 1 in
         if len = 0 then Inr (domain_parts, offset1)
         else dns_name_loop dat (offset1 + unat len)
                (domain_parts @ [utf8_decode_ignore (slice dat offset1 (offset1 + unat len))])))"
  by pat_completeness auto
termination
  by (relation "measure (\<lambda>(dat, offset, domain_parts). length dat - offset)") auto

declare dns_name_loop.simps [simp del]

text \<open>The loops that skip the question section of a response. They read no byte out
  of range and store nothing; only the offset moves.\<close>

function dns_skip_name :: "bytes \<Rightarrow> nat \<Rightarrow> nat" where
  "dns_skip_name dat offset =
     (if offset < length dat then
        (let len = dat ! offset; offset1 = offset + 1 in
         if len = 0 then offset1
         else if len AND 192 = 192 then offset1 + 1
         else dns_skip_name dat (offset1 + unat len))
      else offset)"
  by pat_completeness auto
termination
  by (relation "measure (\<lambda>(dat, offset). length dat - offset)") auto

declare dns_skip_name.simps [simp del]

fun dns_skip_questions :: "nat \<Rightarrow> bytes \<Rightarrow> nat \<Rightarrow> nat" where
  "dns_skip_questions 0 dat offset = offset"
| "dns_skip_questions (Suc n) dat offset = dns_skip_questions n dat (dns_skip_name dat offset + 4)"

text \<open>
  The body of the \<open>try\<close> block: the metadata as it stands when the body ends, and the
  exception that ended it, if one did.
\<close>

definition dns_parse_body :: "bytes \<Rightarrow> pydict \<times> exn option" where
  "dns_parse_body dat =
     (if length dat < 12 then ([(lit ''error'', PStr (lit ''Packet too short for DNS header''))], None)
      else
        (let metadata = dns_header_metadata dat;
             flags = be16 (dat ! 2) (dat ! 3);
             qdcount = be16 (dat ! 4) (dat ! 5);
             ancount = be16 (dat ! 6) (dat ! 7);
             qr = drop_bit 15 flags AND 1;
             questions =
               (if qdcount > 0 then
                  (case dns_name_loop dat 12 [] of
                     Inl e \<Rightarrow> Inl e
                   | Inr (domain_parts, offset) \<Rightarrow>
                       (let metadata1 = dict_set metadata (lit ''query_name'')
                                          (PStr (str_join (lit ''.'') domain_parts))
                        in if offset + 4 \<le> length dat then
                             (let qtype = be16 (dat ! offset) (dat ! (offset + 1));
                                  qclass = be16 (dat ! (offset + 2)) (dat ! (offset + 3))
                              in Inr (dict_set
                                        (dict_set metadata1 (lit ''query_type'') (PStr (qtype_name qtype)))
                                        (lit ''query_class'') (PStr (qclass_name qclass))))
                           else Inr metadata1))
                else Inr metadata)
         in
           case questions of
             Inl e \<Rightarrow> (metadata, Some e)
           | Inr metadata2 \<Rightarrow>
               if qr \<noteq> 0 \<and> ancount > 0 then
                 (let metadata3 = dict_set metadata2 (lit ''answers'') (PList []);
                      offset = dns_skip_questions (unat qdcount) dat 12
                  in (dict_set metadata3 (lit ''answers_parsed'')
                        (PInt (min (uint ancount) 10)), None))
               else (metadata2, None)))"

text \<open>\<open>parse_packet\<close>: the \<open>except Exception\<close> clause stores the text of the
  exception under \<open>parse_error\<close>, and the metadata is returned in either case.\<close>

definition dns_parse_packet :: "bytes \<Rightarrow> pystr \<Rightarrow> exn + pydict" where
  "dns_parse_packet dat direction =
     (case dns_parse_body dat of
        (metadata, None) \<Rightarrow> Inr metadata
      | (metadata, Some e) \<Rightarrow> Inr (dict_set metadata (lit ''parse_error'') (PStr (str_exn e))))"

text \<open>A domain name as length-prefixed labels, closed by the empty label.\<close>

definition dns_encode_name :: "string list \<Rightarrow> bytes" where
  "dns_encode_name labels =
     concat (map (\<lambda>l. of_nat (length l) # map of_char l) labels) @ [0]"

lemma dict_get_dict_set: "dict_get (dict_set d k v) k' = (if k' = k then Some v else dict_get d k')"
  by (simp add: dict_get_def dict_set_def update_conv')

lemma flag_bit: "(drop_bit n w AND 1 \<noteq> 0) = bit w n" for w :: "16 word"
  by (simp add: and_one_eq bit_iff_odd_drop_bit odd_iff_mod_2_eq_one)

lemma and_15: "uint (w AND 15) = uint w mod 16" for w :: "16 word"
proof -
  have "w AND 15 = take_bit 4 w" by (simp add: take_bit_eq_mask mask_numeral)
  then show ?thesis by (simp add: take_bit_eq_mod uint_mod_distrib)
qed

lemma opcode_bits: "uint (drop_bit 11 w AND 15) = uint w div 2048 mod 16" for w :: "16 word"
  by (simp add: and_15 drop_bit_eq_div uint_div_distrib)

lemma dns_header_kept:
  assumes "12 \<le> length dat"
    and "k \<notin> set [lit ''query_name'', lit ''query_type'', lit ''query_class'', lit ''answers'',
                    lit ''answers_parsed'', lit ''parse_error'']"
  shows "\<exists>md. dns_parse_packet dat direction = Inr md \<and>
              dict_get md k = dict_get (dns_header_metadata dat) k"
  using assms
  by (auto simp: dns_parse_packet_def dns_parse_body_def Let_def dict_get_dict_set
           split: sum.splits prod.splits option.splits)

lemma dns_header_flags:
  "dict_get (dns_header_metadata dat) (lit ''is_response'') = Some (PBool (bit (be16 (dat ! 2) (dat ! 3)) 15))"
  "dict_get (dns_header_metadata dat) (lit ''opcode'')
     = Some (PInt (uint (be16 (dat ! 2) (dat ! 3)) div 2048 mod 16))"
  "dict_get (dns_header_metadata dat) (lit ''authoritative'') = Some (PBool (bit (be16 (dat ! 2) (dat ! 3)) 10))"
  "dict_get (dns_header_metadata dat) (lit ''truncated'') = Some (PBool (bit (be16 (dat ! 2) (dat ! 3)) 9))"
  "dict_get (dns_header_metadata dat) (lit ''recursion_desired'') = Some (PBool (bit (be16 (dat ! 2) (dat ! 3)) 8))"
  "dict_get (dns_header_metadata dat) (lit ''recursion_available'') = Some (PBool (bit (be16 (dat ! 2) (dat ! 3)) 7))"
  "dict_get (dns_header_metadata dat) (lit ''response_code'')
     = Some (PInt (uint (be16 (dat ! 2) (dat ! 3)) mod 16))"
proof -
  show "dict_get (dns_header_metadata dat) (lit ''opcode'')
     = Some (PInt (uint (be16 (dat ! 2) (dat ! 3)) div 2048 mod 16))"
    by (simp add: dns_header_metadata_def Let_def dict_get_def lit_eq_iff opcode_bits)
qed (simp_all add: dns_header_metadata_def Let_def dict_get_def lit_eq_iff flag_bit and_15)

lemma example_com_name_loop:
  assumes "length hdr = 12"
  shows "dns_name_loop (hdr @ dns_encode_name [''example'', ''com''] @ rest) 12 []
           = Inr ([lit ''example'', lit ''com''], 25)"
proof -
  let ?d = "hdr @ [7, 101, 120, 97, 109, 112, 108, 101, 3, 99, 111, 109, 0] @ rest"
  have enc: "dns_encode_name [''example'', ''com''] = [7, 101, 120, 97, 109, 112, 108, 101, 3, 99, 111, 109, 0]"
    by (simp add: dns_encode_name_def)
  have l: "12 < length ?d" "20 < length ?d" "24 < length ?d" using assms by simp_all
  have n: "?d ! 12 = 7" "?d ! 20 = 3" "?d ! 24 = 0" using assms by (simp_all add: nth_append)
  have s1: "slice ?d 13 20 = [101, 120, 97, 109, 112, 108, 101]"
    using assms by (simp add: slice_def)
  have s2: "slice ?d 21 24 = [99, 111, 109]"
    using assms by (simp add: slice_def)
  have u1: "utf8_decode_ignore [101, 120, 97, 109, 112, 108, 101] = lit ''example''"
    by (simp add: lit_def Let_def)
  have u2: "utf8_decode_ignore [99, 111, 109] = lit ''com''"
    by (simp add: lit_def Let_def)
  have "dns_name_loop ?d 12 [] = dns_name_loop ?d 20 [lit ''example'']"
    by (subst dns_name_loop.simps) (use l n s1 u1 in \<open>simp add: Let_def\<close>)
  also have "\<dots> = dns_name_loop ?d 24 [lit ''example'', lit ''com'']"
    by (subst dns_name_loop.simps) (use l n s2 u2 in \<open>simp add: Let_def\<close>)
  also have "\<dots> = Inr ([lit ''example'', lit ''com''], 25)"
    by (subst dns_name_loop.simps) (use l n in \<open>simp add: Let_def\<close>)
  finally show ?thesis unfolding enc .
qed

lemma example_com_query_name:
  assumes "length hdr = 12" and "be16 (hdr ! 4) (hdr ! 5) \<noteq> 0"
  shows "\<exists>md. dns_parse_packet (hdr @ dns_encode_name [''example'', ''com''] @ rest) direction = Inr md \<and>
              dict_get md (lit ''query_name'') = Some (PStr (lit ''example.com''))"
proof -
  let ?d = "hdr @ dns_encode_name [''example'', ''com''] @ rest"
  have len: "\<not> length ?d < 12" using assms(1) by simp
  have q: "be16 (?d ! 4) (?d ! 5) > 0"
    using assms by (simp add: nth_append word_greater_zero_iff)
  have j: "lit ''example'' @ lit ''.'' @ lit ''com'' = lit ''example.com''"
    by (simp add: lit_def)
  show ?thesis
    unfolding dns_parse_packet_def dns_parse_body_def Let_def
    using len q
    by (simp add: example_com_name_loop [OF assms(1)] j dict_get_dict_set lit_eq_iff
          split: sum.splits prod.splits option.splits)
qed

lemma dns_parse_packet_returns: "\<exists>md. dns_parse_packet dat direction = Inr md"
proof (cases "dns_parse_body dat")
  case (Pair md e)
  then show ?thesis by (cases e) (simp_all add: dns_parse_packet_def)
qed

text \<open>
  C6. For every DNS datagram of at least 12 bytes, \<open>parse_packet\<close> returns metadata in
  which, with \<open>flags\<close> the big-endian 16-bit word of bytes 2 and 3, \<open>is_response\<close> is
  bit 15, \<open>opcode\<close> is the number in bits 11 to 14, \<open>authoritative\<close> is bit 10,
  \<open>truncated\<close> bit 9, \<open>recursion_desired\<close> bit 8, \<open>recursion_available\<close> bit 7 and
  \<open>response_code\<close> the number in bits 0 to 3. And for a datagram with a 12-byte header
  that announces at least one question, followed by the name \<open>example.com\<close> as
  length-prefixed labels, \<open>query_name\<close> is the string \<open>example.com\<close>.
\<close>

theorem dns_flags_and_query_name:
  assumes "12 \<le> length dat"
    and "length hdr = 12" and "be16 (hdr ! 4) (hdr ! 5) \<noteq> 0"
  shows "(\<exists>md. dns_parse_packet dat direction = Inr md \<and>
            dict_get md (lit ''is_response'') = Some (PBool (bit (be16 (dat ! 2) (dat ! 3)) 15)) \<and>
            dict_get md (lit ''opcode'')
              = Some (PInt (uint (be16 (dat ! 2) (dat ! 3)) div 2 ^ 11 mod 2 ^ 4)) \<and>
            dict_get md (lit ''authoritative'') = Some (PBool (bit (be16 (dat ! 2) (dat ! 3)) 10)) \<and>
            dict_get md (lit ''truncated'') = Some (PBool (bit (be16 (dat ! 2) (dat ! 3)) 9)) \<and>
            dict_get md (lit ''recursion_desired'') = Some (PBool (bit (be16 (dat ! 2) (dat ! 3)) 8)) \<and>
            dict_get md (lit ''recursion_available'') = Some (PBool (bit (be16 (dat ! 2) (dat ! 3)) 7)) \<and>
            dict_get md (lit ''response_code'')
              = Some (PInt (uint (be16 (dat ! 2) (dat ! 3)) mod 2 ^ 4))) \<and>
         (\<exists>md. dns_parse_packet (hdr @ dns_encode_name [''example'', ''com''] @ rest) direction
                 = Inr md \<and>
            dict_get md (lit ''query_name'') = Some (PStr (lit ''example.com'')))"
proof -
  from dns_parse_packet_returns obtain md where md: "dns_parse_packet dat direction = Inr md"
    by blast
  have kept: "dict_get md k = dict_get (dns_header_metadata dat) k"
    if "k \<notin> set [lit ''query_name'', lit ''query_type'', lit ''query_class'', lit ''answers'',
                    lit ''answers_parsed'', lit ''parse_error'']" for k
    using dns_header_kept [OF assms(1) that, of direction] md by simp
  have "dict_get md (lit ''is_response'') = Some (PBool (bit (be16 (dat ! 2) (dat ! 3)) 15))"
    by (subst kept) (simp_all add: lit_eq_iff dns_header_flags)
  moreover have "dict_get md (lit ''opcode'')
              = Some (PInt (uint (be16 (dat ! 2) (dat ! 3)) div 2 ^ 11 mod 2 ^ 4))"
    by (subst kept) (simp_all add: lit_eq_iff dns_header_flags)
  moreover have "dict_get md (lit ''authoritative'') = Some (PBool (bit (be16 (dat ! 2) (dat ! 3)) 10))"
    by (subst kept) (simp_all add: lit_eq_iff dns_header_flags)
  moreover have "dict_get md (lit ''truncated'') = Some (PBool (bit (be16 (dat ! 2) (dat ! 3)) 9))"
    by (subst kept) (simp_all add: lit_eq_iff dns_header_flags)
  moreover have "dict_get md (lit ''recursion_desired'') = Some (PBool (bit (be16 (dat ! 2) (dat ! 3)) 8))"
    by (subst kept) (simp_all add: lit_eq_iff dns_header_flags)
  moreover have "dict_get md (lit ''recursion_available'') = Some (PBool (bit (be16 (dat ! 2) (dat ! 3)) 7))"
    by (subst kept) (simp_all add: lit_eq_iff dns_header_flags)
  moreover have "dict_get md (lit ''response_code'')
              = Some (PInt (uint (be16 (dat ! 2) (dat ! 3)) mod 2 ^ 4))"
    by (subst kept) (simp_all add: lit_eq_iff dns_header_flags)
  ultimately show ?thesis
    using md example_com_query_name [OF assms(2,3), of rest direction] by blast
qed

definition example_query_header :: bytes where
  "example_query_header = [18, 52, 1, 0, 0, 1, 0, 0, 0, 0, 0, 0]"

definition example_response_header :: bytes where
  "example_response_header = [18, 52, 133, 131, 0, 1, 0, 0, 0, 0, 0, 0]"

theorem dns_flags_and_query_name_witness:
  "12 \<le> length example_response_header \<and> length example_query_header = 12 \<and>
   be16 (example_query_header ! 4) (example_query_header ! 5) \<noteq> 0 \<and>
   (\<exists>md. dns_parse_packet example_response_header (lit ''client_to_server'') = Inr md \<and>
      dict_get md (lit ''is_response'') = Some (PBool True) \<and>
      dict_get md (lit ''opcode'') = Some (PInt 0) \<and>
      dict_get md (lit ''authoritative'') = Some (PBool True) \<and>
      dict_get md (lit ''truncated'') = Some (PBool False) \<and>
      dict_get md (lit ''recursion_desired'') = Some (PBool True) \<and>
      dict_get md (lit ''recursion_available'') = Some (PBool True) \<and>
      dict_get md (lit ''response_code'') = Some (PInt 3)) \<and>
   (\<exists>md. dns_parse_packet
            (example_query_header @ dns_encode_name [''example'', ''com''] @ [0, 1, 0, 1])
            (lit ''client_to_server'') = Inr md \<and>
      dict_get md (lit ''query_name'') = Some (PStr (lit ''example.com'')))"
proof -
  have h1: "12 \<le> length example_response_header" by (simp add: example_response_header_def)
  have h2: "length example_query_header = 12" by (simp add: example_query_header_def)
  have h3: "be16 (example_query_header ! 4) (example_query_header ! 5) \<noteq> 0"
    by (simp add: example_query_header_def be16_def)
  have fl: "be16 (example_response_header ! 2) (example_response_header ! 3) = 34179"
    by (simp add: example_response_header_def be16_def)
  have bits: "bit (34179 :: 16 word) 15" "bit (34179 :: 16 word) 10" "\<not> bit (34179 :: 16 word) 9"
    "bit (34179 :: 16 word) 8" "bit (34179 :: 16 word) 7"
    by (simp_all add: bit_iff_odd_drop_bit drop_bit_eq_div)
  from dns_flags_and_query_name [OF h1 h2 h3, where direction = "lit ''client_to_server''"
      and rest = "[0, 1, 0, 1]"]
  show ?thesis using h1 h2 h3 unfolding fl by (simp add: bits)
qed

section \<open>String methods\<close>

text \<open>\<open>str.isspace\<close> of one character: the Unicode white space.\<close>

definition is_space :: "codepoint \<Rightarrow> bool" where
  "is_space c =
     ((9 \<le> c \<and> c \<le> 13) \<or> (28 \<le> c \<and> c \<le> 32) \<or> c = 133 \<or> c = 160 \<or> c = 5760 \<or>
      (8192 \<le> c \<and> c \<le> 8202) \<or> c = 8232 \<or> c = 8233 \<or> c = 8239 \<or> c = 8287 \<or> c = 12288)"

text \<open>\<open>s.strip()\<close>.\<close>

definition str_strip :: "pystr \<Rightarrow> pystr" where
  "str_strip s = rev (dropWhile is_space (rev (dropWhile is_space s)))"

text \<open>\<open>s.split(sep, 1)\<close> for a one-character separator: split at its first occurrence.\<close>

definition split_once :: "'a \<Rightarrow> 'a list \<Rightarrow> 'a list list" where
  "split_once sep s =
     (if sep \<in> set s then [takeWhile (\<lambda>c. c \<noteq> sep) s, tl (dropWhile (\<lambda>c. c \<noteq> sep) s)]
      else [s])"

text \<open>
  The Unicode character tables the string methods consult, as far as they are used:
  the decimal digits (category Nd, what \<open>\d\<close> matches and \<open>int\<close> reads) with their
  values, the characters \<open>str.isdigit\<close> accepts, and \<open>str.upper\<close>. They belong to the
  interpreter and are a parameter of the model.
\<close>

record unicode_tables =
  uc_isdecimal :: "codepoint \<Rightarrow> bool"
  uc_decimal_value :: "codepoint \<Rightarrow> nat"
  uc_isdigit :: "codepoint \<Rightarrow> bool"
  uc_upper :: "pystr \<Rightarrow> pystr"

text \<open>\<open>s.isdigit()\<close>: a non-empty string of digits.\<close>

definition str_isdigit :: "unicode_tables \<Rightarrow> pystr \<Rightarrow> bool" where
  "str_isdigit U s = (s \<noteq> [] \<and> list_all (uc_isdigit U) s)"

text \<open>
  An index expression \<open>xs[i]\<close> with \<open>0 \<le> i\<close>: out of range it raises \<open>IndexError\<close>,
  with the text of the type indexed.
\<close>

definition list_index :: "'a list \<Rightarrow> nat \<Rightarrow> exn + 'a" where
  "list_index xs i =
     (if i < length xs then Inr (xs ! i) else Inl (IndexError (lit ''list index out of range'')))"

definition str_index :: "pystr \<Rightarrow> nat \<Rightarrow> exn + codepoint" where
  "str_index s i =
     (if i < length s then Inr (s ! i) else Inl (IndexError (lit ''string index out of range'')))"

definition bytes_index :: "bytes \<Rightarrow> nat \<Rightarrow> exn + byte" where
  "bytes_index b i =
     (if i < length b then Inr (b ! i) else Inl (IndexError (lit ''index out of range'')))"

text \<open>
  The interpreter's limit on the number of digits in a conversion between \<open>int\<close> and
  \<open>str\<close>, \<open>sys.int_info.default_max_str_digits\<close>; the program does not change it.
\<close>

definition int_max_str_digits :: nat where
  "int_max_str_digits = 4300"

text \<open>
  \<open>int(s)\<close> of a non-empty string of decimal digits, which is what a group \<open>\d+\<close> of
  a match holds: its value, or \<open>ValueError\<close> when the string has more digits than
  the limit (leading zeros count).
\<close>

definition int_of_digits :: "unicode_tables \<Rightarrow> pystr \<Rightarrow> exn + int" where
  "int_of_digits U s =
     (if length s > int_max_str_digits then
        Inl (ValueError
               (lit ''Exceeds the limit (4300 digits) for integer string conversion: value has ''
                  @ str_int (int (length s))
                  @ lit '' digits; use sys.set_int_max_str_digits() to increase the limit''))
      else Inr (int (foldl (\<lambda>acc c. 10 * acc + uc_decimal_value U c) 0 s)))"

text \<open>\<open>f"{i}"\<close>, that is \<open>str(i)\<close>: the decimal form, or \<open>ValueError\<close> when it has
  more digits than the limit.\<close>

definition format_int :: "int \<Rightarrow> exn + pystr" where
  "format_int i =
     (if length (dec_digits (nat \<bar>i\<bar>)) > int_max_str_digits then
        Inl (ValueError
               (lit ''Exceeds the limit (4300 digits) for integer string conversion; use sys.set_int_max_str_digits() to increase the limit''))
      else Inr (str_int i))"

section \<open>The \<open>try\<close> block of a parser\<close>

text \<open>
  Every \<open>parse_packet\<close> is
  \<^verbatim>\<open>metadata = {}
  try:
      ...
  except Exception as e:
      metadata['parse_error'] = str(e)
  return metadata\<close>
  The body of the \<open>try\<close> block is modelled by what it leaves behind: the metadata as
  it stands when the body ends, and the exception that ended it, if one did.
  \<open>try_step metadata step k\<close> is one step of the body that can raise, made when the
  dictionary holds \<open>metadata\<close>, followed by the rest \<open>k\<close> of the body; \<open>then_step\<close>
  puts two parts of a body in sequence.
\<close>

definition try_step :: "pydict \<Rightarrow> exn + 'a \<Rightarrow> ('a \<Rightarrow> pydict \<times> exn option) \<Rightarrow> pydict \<times> exn option" where
  "try_step metadata step k = (case step of Inl e \<Rightarrow> (metadata, Some e) | Inr x \<Rightarrow> k x)"

definition then_step ::
  "pydict \<times> exn option \<Rightarrow> (pydict \<Rightarrow> pydict \<times> exn option) \<Rightarrow> pydict \<times> exn option" where
  "then_step part k = (case part of (metadata, Some e) \<Rightarrow> (metadata, Some e) | (metadata, None) \<Rightarrow> k metadata)"

text \<open>The \<open>except\<close> clause and the \<open>return\<close>.\<close>

definition except_parse_error :: "pydict \<times> exn option \<Rightarrow> exn + pydict" where
  "except_parse_error body =
     (case body of
        (metadata, None) \<Rightarrow> Inr metadata
      | (metadata, Some e) \<Rightarrow> Inr (dict_set metadata (lit ''parse_error'') (PStr (str_exn e))))"

section \<open>protocols/ftp.py\<close>

text \<open>
  The pattern \<open>\((\d+),(\d+),(\d+),(\d+),(\d+),(\d+)\)\<close> of \<open>parse_packet\<close> (and of
  \<open>_handle_pasv_response\<close>). Each group \<open>\d+\<close> is
  followed by a literal comma or parenthesis, which is no digit, so the greedy group is
  the longest run of digits and no backtracking can find another match at the same
  start. \<open>match_group\<close> reads one group and the separator after it.
\<close>

definition match_group :: "unicode_tables \<Rightarrow> codepoint \<Rightarrow> pystr \<Rightarrow> (pystr \<times> pystr) option" where
  "match_group U sep s =
     (let d = takeWhile (uc_isdecimal U) s; r = dropWhile (uc_isdecimal U) s
      in if d \<noteq> [] \<and> r \<noteq> [] \<and> hd r = sep then Some (d, tl r) else None)"

text \<open>The match at the start of \<open>s\<close>, if there is one: \<open>match.groups()\<close>, a tuple of
  the six groups.\<close>

type_synonym groups = "pystr \<times> pystr \<times> pystr \<times> pystr \<times> pystr \<times> pystr"

definition match_pasv_at :: "unicode_tables \<Rightarrow> pystr \<Rightarrow> groups option" where
  "match_pasv_at U s =
     (case s of
        [] \<Rightarrow> None
      | c # r0 \<Rightarrow>
          if c = 40 then
            do {
              (g1, r1) \<leftarrow> match_group U 44 r0;
              (g2, r2) \<leftarrow> match_group U 44 r1;
              (g3, r3) \<leftarrow> match_group U 44 r2;
              (g4, r4) \<leftarrow> match_group U 44 r3;
              (g5, r5) \<leftarrow> match_group U 44 r4;
              (g6, r6) \<leftarrow> match_group U 41 r5;
              Some (g1, g2, g3, g4, g5, g6)
            }
          else None)"

text \<open>\<open>re.search\<close>: the match at the leftmost start position that has one.\<close>

fun re_search_pasv :: "unicode_tables \<Rightarrow> pystr \<Rightarrow> groups option" where
  "re_search_pasv U [] = match_pasv_at U []"
| "re_search_pasv U (c # s) =
     (case match_pasv_at U (c # s) of
        Some groups \<Rightarrow> Some groups
      | None \<Rightarrow> re_search_pasv U s)"

definition response_type :: "codepoint \<Rightarrow> pystr option" where
  "response_type code_category =
     (if code_category = 49 then Some (lit ''preliminary'')
      else if code_category = 50 then Some (lit ''completion'')
      else if code_category = 51 then Some (lit ''intermediate'')
      else if code_category = 52 then Some (lit ''transient_negative'')
      else if code_category = 53 then Some (lit ''permanent_negative'')
      else None)"

text \<open>
  The \<open>client_to_server\<close> branch of the \<open>try\<close> block of
  \<open>FTPProtocolHandler.parse_packet\<close>: an FTP command.
\<close>

definition ftp_parse_command :: "unicode_tables \<Rightarrow> pystr \<Rightarrow> pydict \<times> exn option" where
  "ftp_parse_command U text =
     (let parts = split_once 32 text in
      try_step [] (list_index parts 0) (\<lambda>part0.
      let command = uc_upper U part0;
          metadata = dict_set [] (lit ''command'') (PStr command) in
      try_step metadata
        (if length parts > 1
         then (case list_index parts 1 of
                 Inl e \<Rightarrow> Inl e
               | Inr part1 \<Rightarrow> Inr (dict_set metadata (lit ''argument'') (PStr part1)))
         else Inr metadata) (\<lambda>metadata1.
      if command = lit ''USER'' then
        try_step metadata1 (if length parts > 1 then list_index parts 1 else Inr []) (\<lambda>username.
        (dict_set metadata1 (lit ''username'') (PStr username), None))
      else if command = lit ''PASS'' then
        (dict_set metadata1 (lit ''password'') (PStr (lit ''********'')), None)
      else if command \<in> set [lit ''CWD'', lit ''CDUP'', lit ''PWD''] then
        (dict_set metadata1 (lit ''directory_operation'') (PBool True), None)
      else if command \<in> set [lit ''RETR'', lit ''STOR'', lit ''LIST'', lit ''NLST''] then
        (let metadata2 = dict_set metadata1 (lit ''data_channel_operation'') (PBool True) in
         if command \<in> set [lit ''RETR'', lit ''STOR''] \<and> length parts > 1 then
           try_step metadata2 (list_index parts 1) (\<lambda>filename.
           (dict_set metadata2 (lit ''filename'') (PStr filename), None))
         else (metadata2, None))
      else (metadata1, None))))"

text \<open>
  The \<open>server_to_client\<close> branch: an FTP response. For the code \<open>227\<close> with a match
  of the pattern,
  \<^verbatim>\<open>h1, h2, h3, h4, p1, p2 = map(int, match.groups())\<close>
  converts the groups one after the other, and the first conversion that raises ends
  the body; nothing of the passive address is stored by then.
\<close>

definition ftp_parse_response :: "unicode_tables \<Rightarrow> pystr \<Rightarrow> pydict \<times> exn option" where
  "ftp_parse_response U text =
     (let parts = split_once 32 text in
      if parts \<noteq> [] then
        try_step [] (list_index parts 0) (\<lambda>part0.
        if str_isdigit U part0 then
          try_step [] (list_index parts 0) (\<lambda>code.
          let metadata = dict_set [] (lit ''response_code'') (PStr code) in
          try_step metadata
            (if length parts > 1
             then (case list_index parts 1 of
                     Inl e \<Rightarrow> Inl e
                   | Inr part1 \<Rightarrow> Inr (dict_set metadata (lit ''response_message'') (PStr part1)))
             else Inr metadata) (\<lambda>metadata1.
          try_step metadata1 (str_index code 0) (\<lambda>code_category.
          let metadata2 = (case response_type code_category of
                             Some t \<Rightarrow> dict_set metadata1 (lit ''response_type'') (PStr t)
                           | None \<Rightarrow> metadata1) in
          if code = lit ''227'' then
            (case re_search_pasv U text of
               Some (g1, g2, g3, g4, g5, g6) \<Rightarrow>
                 try_step metadata2 (int_of_digits U g1) (\<lambda>h1.
                 try_step metadata2 (int_of_digits U g2) (\<lambda>h2.
                 try_step metadata2 (int_of_digits U g3) (\<lambda>h3.
                 try_step metadata2 (int_of_digits U g4) (\<lambda>h4.
                 try_step metadata2 (int_of_digits U g5) (\<lambda>p1.
                 try_step metadata2 (int_of_digits U g6) (\<lambda>p2.
                 try_step metadata2 (format_int h1) (\<lambda>s1.
                 try_step metadata2 (format_int h2) (\<lambda>s2.
                 try_step metadata2 (format_int h3) (\<lambda>s3.
                 try_step metadata2 (format_int h4) (\<lambda>s4.
                 let passive_ip = s1 @ lit ''.'' @ s2 @ lit ''.'' @ s3 @ lit ''.'' @ s4;
                     passive_port = (p1 * 256) + p2
                 in (dict_set
                       (dict_set metadata2 (lit ''passive_ip'') (PStr passive_ip))
                       (lit ''passive_port'') (PInt passive_port), None)))))))))))
             | None \<Rightarrow> (metadata2, None))
          else (metadata2, None))))
        else ([], None))
      else ([], None))"

text \<open>The \<open>try\<close> block, and \<open>parse_packet\<close> with its \<open>except\<close> clause.\<close>

definition ftp_parse_body :: "unicode_tables \<Rightarrow> bytes \<Rightarrow> pystr \<Rightarrow> pydict \<times> exn option" where
  "ftp_parse_body U dat direction =
     (let text = str_strip (utf8_decode_ignore dat) in
      if direction = lit ''client_to_server'' then ftp_parse_command U text
      else ftp_parse_response U text)"

definition ftp_parse_packet :: "unicode_tables \<Rightarrow> bytes \<Rightarrow> pystr \<Rightarrow> exn + pydict" where
  "ftp_parse_packet U dat direction = except_parse_error (ftp_parse_body U dat direction)"

definition ascii_tables :: unicode_tables where
  "ascii_tables =
     \<lparr> uc_isdecimal = (\<lambda>c. 48 \<le> c \<and> c \<le> 57),
       uc_decimal_value = (\<lambda>c. c - 48),
       uc_isdigit = (\<lambda>c. 48 \<le> c \<and> c \<le> 57),
       uc_upper = map (\<lambda>c. if 97 \<le> c \<and> c \<le> 122 then c - 32 else c) \<rparr>"

text \<open>What the claims about ASCII text ask of the tables: the ASCII digits are decimal
  digits with their values, and comma and the parentheses are not.\<close>

definition ascii_digits_known :: "unicode_tables \<Rightarrow> bool" where
  "ascii_digits_known U =
     (list_all (\<lambda>c. uc_isdecimal U c \<and> uc_isdigit U c \<and> uc_decimal_value U c = c - 48) [48..<58] \<and>
      \<not> uc_isdecimal U 44 \<and> \<not> uc_isdecimal U 41 \<and> \<not> uc_isdecimal U 40)"

text \<open>A decimal integer in ASCII, and the number it denotes.\<close>

definition ascii_decimal :: "pystr \<Rightarrow> bool" where
  "ascii_decimal d = (d \<noteq> [] \<and> list_all (\<lambda>c. 48 \<le> c \<and> c \<le> 57) d)"


definition is_ascii :: "pystr \<Rightarrow> bool" where
  "is_ascii s = list_all (\<lambda>c. c < 128) s"

text \<open>The bytes of an ASCII text.\<close>

definition ascii_bytes :: "pystr \<Rightarrow> bytes" where
  "ascii_bytes s = map of_nat s"

text \<open>A \<open>227\<close> response: the code, a space, a text, the parenthesized group, a text.\<close>

definition pasv_group :: "groups \<Rightarrow> pystr" where
  "pasv_group g =
     (case g of (h1, h2, h3, h4, p1, p2) \<Rightarrow>
        [40] @ h1 @ [44] @ h2 @ [44] @ h3 @ [44] @ h4 @ [44] @ p1 @ [44] @ p2 @ [41])"

definition pasv_response :: "pystr \<Rightarrow> groups \<Rightarrow> pystr \<Rightarrow> pystr" where
  "pasv_response pre g post = lit ''227 '' @ pre @ pasv_group g @ post"

lemma try_step_Inr: "try_step metadata (Inr x) k = k x"
  by (simp add: try_step_def)

lemma try_step_Inl: "try_step metadata (Inl e) k = (metadata, Some e)"
  by (simp add: try_step_def)

lemma list_index_Cons0: "list_index (x # xs) 0 = Inr x"
  by (simp add: list_index_def)

lemma list_index_Cons1: "list_index (x # y # xs) (Suc 0) = Inr y"
  by (simp add: list_index_def)

lemma utf8_decode_ascii: "is_ascii s \<Longrightarrow> utf8_decode_ignore (ascii_bytes s) = s"
proof (induction s)
  case Nil
  then show ?case by (simp add: ascii_bytes_def)
next
  case (Cons c s)
  then have c: "c < 128" and s: "is_ascii s" by (simp_all add: is_ascii_def)
  have "unat (of_nat c :: byte) = c" using c by (simp add: unat_of_nat)
  with Cons.IH [OF s] c show ?case by (simp add: ascii_bytes_def Let_def)
qed



lemma match_group_digits:
  assumes "d \<noteq> []" and "list_all (uc_isdecimal U) d" and "\<not> uc_isdecimal U sep"
  shows "match_group U sep (d @ sep # r) = Some (d, r)"
proof -
  from assms(2) have all: "\<forall>c\<in>set d. uc_isdecimal U c" by (simp add: list_all_iff)
  have "takeWhile (uc_isdecimal U) (d @ sep # r) = d"
    using all assms(3) by (simp add: takeWhile_append2)
  moreover have "dropWhile (uc_isdecimal U) (d @ sep # r) = sep # r"
    using all assms(3) by (simp add: dropWhile_append2)
  ultimately show ?thesis using assms(1) by (simp add: match_group_def)
qed

text \<open>An opening parenthesis after \<open>s\<close> neither completes nor spoils a match that
  starts in \<open>s\<close>: it is no digit and no separator of the pattern.\<close>

lemma match_group_before_paren:
  assumes "\<not> uc_isdecimal U 40" and "sep \<noteq> 40"
  shows "match_group U sep (s @ 40 # x)
         = map_option (\<lambda>(d, r). (d, r @ 40 # x)) (match_group U sep s)"
proof (cases "\<forall>c\<in>set s. uc_isdecimal U c")
  case True
  then have "takeWhile (uc_isdecimal U) (s @ 40 # x) = s"
    and "dropWhile (uc_isdecimal U) (s @ 40 # x) = 40 # x"
    and "dropWhile (uc_isdecimal U) s = []"
    using assms(1) by (simp_all add: takeWhile_append2 dropWhile_append2)
  then show ?thesis using assms(2) by (simp add: match_group_def)
next
  case False
  then have t: "takeWhile (uc_isdecimal U) (s @ 40 # x) = takeWhile (uc_isdecimal U) s"
    and d: "dropWhile (uc_isdecimal U) (s @ 40 # x) = dropWhile (uc_isdecimal U) s @ 40 # x"
    and n: "dropWhile (uc_isdecimal U) s \<noteq> []"
    by (auto simp: takeWhile_append1 dropWhile_append1 dropWhile_eq_Nil_conv)
  show ?thesis unfolding match_group_def t d Let_def using n by simp
qed

lemma match_pasv_before_paren:
  assumes "\<not> uc_isdecimal U 40"
  shows "match_pasv_at U (c # s @ 40 # x) = match_pasv_at U (c # s)"
proof -
  note g = match_group_before_paren [OF assms]
  have a: "match_group U 44 (r @ 40 # x) = map_option (\<lambda>(d, r). (d, r @ 40 # x)) (match_group U 44 r)"
    for r by (rule g) simp
  have b: "match_group U 41 (r @ 40 # x) = map_option (\<lambda>(d, r). (d, r @ 40 # x)) (match_group U 41 r)"
    for r by (rule g) simp
  show ?thesis
    unfolding match_pasv_at_def
    by (simp add: a b bind_map_option comp_def split_beta split: option.splits bind_splits)
qed

lemma re_search_before_paren:
  assumes "\<not> uc_isdecimal U 40"
  shows "re_search_pasv U (pre @ 40 # x)
         = (case re_search_pasv U pre of
              Some groups \<Rightarrow> Some groups
            | None \<Rightarrow> re_search_pasv U (40 # x))"
proof (induction pre)
  case Nil
  show ?case by (simp add: match_pasv_at_def)
next
  case (Cons c pre)
  show ?case
    using Cons.IH match_pasv_before_paren [OF assms, of c pre x]
    by (simp split: option.splits)
qed

lemma decimal_of_ascii:
  assumes "ascii_digits_known U" and "48 \<le> c" and "c \<le> 57"
  shows "uc_isdecimal U c" and "uc_isdigit U c" and "uc_decimal_value U c = c - 48"
proof -
  have "c \<in> set [48..<58]" unfolding set_upt using assms(2,3) by simp
  with assms(1) show "uc_isdecimal U c" and "uc_isdigit U c" and "uc_decimal_value U c = c - 48"
    unfolding ascii_digits_known_def list_all_iff by blast+
qed

lemma ascii_decimal_isdecimal:
  "ascii_digits_known U \<Longrightarrow> ascii_decimal d \<Longrightarrow> d \<noteq> [] \<and> list_all (uc_isdecimal U) d"
  by (auto simp: ascii_decimal_def list_all_iff intro: decimal_of_ascii)


lemma int_of_long_digits:
  "int_max_str_digits < length d \<Longrightarrow>
   int_of_digits U d =
     Inl (ValueError
            (lit ''Exceeds the limit (4300 digits) for integer string conversion: value has ''
               @ str_int (int (length d))
               @ lit '' digits; use sys.set_int_max_str_digits() to increase the limit''))"
  by (simp add: int_of_digits_def)




lemma dict_get_Cons: "dict_get ((k, v) # d) k' = (if k' = k then Some v else dict_get d k')"
  by (simp add: dict_get_def)

lemma str_strip_id:
  assumes "\<not> is_space a" and "\<not> is_space b"
  shows "str_strip (a # x @ [b]) = a # x @ [b]"
proof -
  have "dropWhile is_space (a # x @ [b]) = a # x @ [b]" using assms(1) by simp
  moreover have "dropWhile is_space (rev (a # x @ [b])) = rev (a # x @ [b])" using assms(2) by simp
  ultimately show ?thesis unfolding str_strip_def by simp
qed

text \<open>
  A text that starts with \<open>227\<close> and a space and holds a group of six ASCII decimal
  numbers, with no match of the pattern before the group: the two parts of the text,
  and the match that the search finds.
\<close>

lemma pasv_response_parts:
  "split_once 32 (pasv_response pre g post) = [lit ''227'', pre @ pasv_group g @ post]"
  by (simp add: pasv_response_def split_once_def lit_def)

lemma pasv_response_search:
  assumes U: "ascii_digits_known U"
    and dec: "list_all ascii_decimal [h1, h2, h3, h4, p1, p2]"
    and pre: "re_search_pasv U pre = None"
  shows "re_search_pasv U (pasv_response pre (h1, h2, h3, h4, p1, p2) post)
         = Some (h1, h2, h3, h4, p1, p2)"
proof -
  from U have sep: "\<not> uc_isdecimal U 44" "\<not> uc_isdecimal U 41" "\<not> uc_isdecimal U 40"
    by (simp_all add: ascii_digits_known_def)
  note g = match_group_digits [OF conjunct1 conjunct2, OF ascii_decimal_isdecimal ascii_decimal_isdecimal]
  from dec have d: "ascii_decimal h1" "ascii_decimal h2" "ascii_decimal h3" "ascii_decimal h4"
    "ascii_decimal p1" "ascii_decimal p2" by simp_all
  have m: "match_pasv_at U (40 # h1 @ 44 # h2 @ 44 # h3 @ 44 # h4 @ 44 # p1 @ 44 # p2 @ 41 # post)
           = Some (h1, h2, h3, h4, p1, p2)"
    unfolding match_pasv_at_def
    by (simp add: g [OF U d(1) U d(1) sep(1)] g [OF U d(2) U d(2) sep(1)]
          g [OF U d(3) U d(3) sep(1)] g [OF U d(4) U d(4) sep(1)]
          g [OF U d(5) U d(5) sep(1)] g [OF U d(6) U d(6) sep(2)])
  have none: "re_search_pasv U (50 # 50 # 55 # 32 # pre) = None"
    using pre by (simp add: match_pasv_at_def)
  have "re_search_pasv U ((50 # 50 # 55 # 32 # pre)
           @ 40 # h1 @ 44 # h2 @ 44 # h3 @ 44 # h4 @ 44 # p1 @ 44 # p2 @ 41 # post)
        = Some (h1, h2, h3, h4, p1, p2)"
    unfolding re_search_before_paren [OF sep(3)] none using m by simp
  then show ?thesis by (simp add: pasv_response_def pasv_group_def lit_def)
qed

lemma pasv_response_code:
  assumes "ascii_digits_known U"
  shows "str_isdigit U (lit ''227'')" and "str_index (lit ''227'') 0 = Inr 50"
    and "response_type 50 = Some (lit ''completion'')"
  using decimal_of_ascii(2) [OF assms]
  by (simp_all add: str_isdigit_def str_index_def response_type_def lit_def)


text \<open>When the first number has more than 4300 digits, its conversion raises, and the
  body ends with the code, the message and the type of the response stored.\<close>

lemma pasv_response_long:
  assumes U: "ascii_digits_known U"
    and dec: "list_all ascii_decimal [h1, h2, h3, h4, p1, p2]"
    and len: "int_max_str_digits < length h1"
    and pre: "re_search_pasv U pre = None"
  shows "ftp_parse_response U (pasv_response pre (h1, h2, h3, h4, p1, p2) post)
         = ([(lit ''response_code'', PStr (lit ''227'')),
             (lit ''response_message'', PStr (pre @ pasv_group (h1, h2, h3, h4, p1, p2) @ post)),
             (lit ''response_type'', PStr (lit ''completion''))],
            Some (ValueError
                    (lit ''Exceeds the limit (4300 digits) for integer string conversion: value has ''
                       @ str_int (int (length h1))
                       @ lit '' digits; use sys.set_int_max_str_digits() to increase the limit'')))"
  unfolding ftp_parse_response_def Let_def pasv_response_parts
  by (simp add: list_index_Cons0 list_index_Cons1 try_step_Inr try_step_Inl
        pasv_response_code [OF U] pasv_response_search [OF U dec pre]
        int_of_long_digits [OF len] dict_set_def lit_eq_iff)

lemma ascii_tables_known: "ascii_digits_known ascii_tables"
  by (simp add: ascii_digits_known_def ascii_tables_def list_all_iff)

lemma server_direction: "lit ''server_to_client'' \<noteq> lit ''client_to_server''"
  by (simp add: lit_eq_iff)

text \<open>The response \<open>227 (11...1,0,0,1,4,1)\<close> whose first number has 4301 digits.\<close>

lemma long_response_body:
  "ftp_parse_body ascii_tables
      (ascii_bytes (lit ''227 ('' @ replicate 4301 49 @ lit '',0,0,1,4,1)''))
      (lit ''server_to_client'')
   = ([(lit ''response_code'', PStr (lit ''227'')),
       (lit ''response_message'', PStr (lit ''('' @ replicate 4301 49 @ lit '',0,0,1,4,1)'')),
       (lit ''response_type'', PStr (lit ''completion''))],
      Some (ValueError
              (lit ''Exceeds the limit (4300 digits) for integer string conversion: value has 4301 digits; use sys.set_int_max_str_digits() to increase the limit'')))"
proof -
  let ?g = "(replicate 4301 49, lit ''0'', lit ''0'', lit ''1'', lit ''4'', lit ''1'')"
  let ?text = "lit ''227 ('' @ replicate 4301 49 @ lit '',0,0,1,4,1)''"
  have tx: "?text = pasv_response [] ?g []"
    by (simp add: pasv_response_def pasv_group_def lit_def)
  have asc: "is_ascii ?text" by (simp add: is_ascii_def lit_def list_all_iff)
  have "?text = 50 # (lit ''27 ('' @ replicate 4301 49 @ lit '',0,0,1,4,1'') @ [41]"
    by (simp add: lit_def)
  moreover have "str_strip (50 # (lit ''27 ('' @ replicate 4301 49 @ lit '',0,0,1,4,1'') @ [41])
        = 50 # (lit ''27 ('' @ replicate 4301 49 @ lit '',0,0,1,4,1'') @ [41]"
    by (rule str_strip_id) (simp_all add: is_space_def)
  ultimately have strip: "str_strip ?text = ?text" by simp
  have dec: "list_all ascii_decimal [replicate 4301 49, lit ''0'', lit ''0'', lit ''1'', lit ''4'', lit ''1'']"
    by (simp add: ascii_decimal_def lit_def list_all_iff)
  have len: "int_max_str_digits < length (replicate 4301 (49 :: nat))"
    by (simp add: int_max_str_digits_def)
  have pre: "re_search_pasv ascii_tables [] = None" by (simp add: match_pasv_at_def)
  have n: "str_int (int (length (replicate 4301 (49 :: nat)))) = lit ''4301''"
    by (simp add: str_int_def dec_digits.simps lit_def)
  have msg: "[] @ pasv_group ?g @ [] = lit ''('' @ replicate 4301 49 @ lit '',0,0,1,4,1)''"
    by (simp add: pasv_group_def lit_def)
  have e: "lit ''Exceeds the limit (4300 digits) for integer string conversion: value has ''
             @ lit ''4301''
             @ lit '' digits; use sys.set_int_max_str_digits() to increase the limit''
           = lit ''Exceeds the limit (4300 digits) for integer string conversion: value has 4301 digits; use sys.set_int_max_str_digits() to increase the limit''"
    by (simp add: lit_def)
  have "ftp_parse_response ascii_tables ?text
        = ([(lit ''response_code'', PStr (lit ''227'')),
            (lit ''response_message'', PStr (lit ''('' @ replicate 4301 49 @ lit '',0,0,1,4,1)'')),
            (lit ''response_type'', PStr (lit ''completion''))],
           Some (ValueError
              (lit ''Exceeds the limit (4300 digits) for integer string conversion: value has 4301 digits; use sys.set_int_max_str_digits() to increase the limit'')))"
    unfolding tx pasv_response_long [OF ascii_tables_known dec len pre] n msg e ..
  then show ?thesis
    unfolding ftp_parse_body_def Let_def utf8_decode_ascii [OF asc] strip
    using server_direction by simp
qed




section \<open>protocols/http.py\<close>

text \<open>\<open>s.split(sep)\<close> for a separator of any length, on \<open>bytes\<close> or \<open>str\<close>: the
  pieces between the occurrences of \<open>sep\<close>, found from the left. (An empty separator
  raises in Python; the code has none.)\<close>

function split_on :: "'a list \<Rightarrow> 'a list \<Rightarrow> 'a list \<Rightarrow> 'a list list" where
  "split_on sep cur s =
     (if sep = [] \<or> s = [] then [cur @ s]
      else if take (length sep) s = sep then cur # split_on sep [] (drop (length sep) s)
      else split_on sep (cur @ [hd s]) (tl s))"
  by pat_completeness auto
termination
  by (relation "measure (\<lambda>(sep, cur, s). length s)") auto

declare split_on.simps [simp del]

definition py_split :: "'a list \<Rightarrow> 'a list \<Rightarrow> 'a list list" where
  "py_split sep s = split_on sep [] s"

text \<open>\<open>s.split(sep, n)\<close> for a one-character separator: at most \<open>n\<close> splits.\<close>

fun split_max :: "'a \<Rightarrow> nat \<Rightarrow> 'a list \<Rightarrow> 'a list list" where
  "split_max sep 0 s = [s]"
| "split_max sep (Suc n) s =
     (if sep \<in> set s
      then takeWhile (\<lambda>c. c \<noteq> sep) s # split_max sep n (tl (dropWhile (\<lambda>c. c \<noteq> sep) s))
      else [s])"

text \<open>The part of \<open>s\<close> after the first occurrence of \<open>sep\<close>, \<open>None\<close> when there is
  no occurrence; with it, \<open>sep in s\<close> and \<open>s.split(sep, 1)\<close>, which has one piece
  when \<open>sep\<close> does not occur and two when it does.\<close>

fun find_after :: "'a list \<Rightarrow> 'a list \<Rightarrow> 'a list option" where
  "find_after sep [] = (if sep = [] then Some [] else None)"
| "find_after sep (x # xs) =
     (if take (length sep) (x # xs) = sep then Some (drop (length sep) (x # xs))
      else find_after sep xs)"

definition contains :: "'a list \<Rightarrow> 'a list \<Rightarrow> bool" where
  "contains sep s = (find_after sep s \<noteq> None)"

definition split_first :: "'a list \<Rightarrow> 'a list \<Rightarrow> 'a list list" where
  "split_first sep s =
     (case find_after sep s of
        None \<Rightarrow> [s]
      | Some rest \<Rightarrow> [take (length s - length sep - length rest) s, rest])"

text \<open>The assignment \<open>a, b = xs\<close>: \<open>ValueError\<close> unless \<open>xs\<close> has two elements.\<close>

fun unpack2 :: "'a list \<Rightarrow> exn + 'a \<times> 'a" where
  "unpack2 [] = Inl (ValueError (lit ''not enough values to unpack (expected 2, got 0)''))"
| "unpack2 [a] = Inl (ValueError (lit ''not enough values to unpack (expected 2, got 1)''))"
| "unpack2 [a, b] = Inr (a, b)"
| "unpack2 (a # b # c # r) = Inl (ValueError (lit ''too many values to unpack (expected 2)''))"

definition CRLF :: bytes where "CRLF = [13, 10]"

text \<open>\<open>s.startswith(p)\<close>.\<close>

definition startswith :: "'a list \<Rightarrow> 'a list \<Rightarrow> bool" where
  "startswith s p = (take (length p) s = p)"

text \<open>
  The loop over the header lines, on the dictionary \<open>metadata['headers']\<close>: it stops
  at the first empty line; a line without a colon is passed over; a repeated name
  overwrites the stored value. The body of the loop is
  \<^verbatim>\<open>try:
      header_line = line.decode('utf-8', 'ignore')
      if ':' in header_line:
          name, value = header_line.split(':', 1)
          metadata['headers'][name.strip()] = value.strip()
  except:
      pass\<close>
  so an exception of the unpacking leaves the dictionary as it is and the loop goes on.
\<close>

fun http_headers_loop :: "bytes list \<Rightarrow> pydict \<Rightarrow> pydict" where
  "http_headers_loop [] headers = headers"
| "http_headers_loop (line # lines) headers =
     (if line = [] \<or> line = CRLF then headers
      else
        (let header_line = utf8_decode_ignore line in
         if 58 \<in> set header_line then
           (case unpack2 (split_max 58 1 header_line) of
              Inl e \<Rightarrow> http_headers_loop lines headers
            | Inr (name, val) \<Rightarrow>
                http_headers_loop lines
                  (dict_set headers (str_strip name) (PStr (str_strip val))))
         else http_headers_loop lines headers))"

text \<open>\<open>metadata.get('headers', {}).get('Content-Type', '')\<close>.\<close>

definition get_content_type :: "pydict \<Rightarrow> pyval" where
  "get_content_type metadata =
     (case dict_get metadata (lit ''headers'') of
        Some (PDict headers) \<Rightarrow>
          (case dict_get headers (lit ''Content-Type'') of Some v \<Rightarrow> v | None \<Rightarrow> PStr [])
      | _ \<Rightarrow> PStr [])"

text \<open>
  The part of the \<open>try\<close> block after the two branches: content type and body. The
  values of the headers are strings, so the content type is one. (The inner \<open>try\<close>
  around the preview encloses a slice and a decoding that ignores errors.)
\<close>

definition http_body_metadata :: "bytes \<Rightarrow> pydict \<Rightarrow> pydict \<times> exn option" where
  "http_body_metadata dat metadata =
     (let content_type = get_content_type metadata;
          metadata1 = dict_set metadata (lit ''content_type'') content_type
      in if contains (CRLF @ CRLF) dat then
           try_step metadata1 (list_index (split_first (CRLF @ CRLF) dat) 1) (\<lambda>body.
           let metadata2 = dict_set metadata1 (lit ''body_length'') (PInt (int (length body)))
           in case content_type of
                PStr ct \<Rightarrow>
                  if startswith ct (lit ''text/'') \<or> startswith ct (lit ''application/json'')
                     \<or> startswith ct (lit ''application/xml'')
                  then (dict_set metadata2 (lit ''body_preview'')
                          (PStr (utf8_decode_ignore (take 100 body))), None)
                  else (metadata2, None)
              | _ \<Rightarrow> (metadata2, None))
         else (metadata1, None))"

text \<open>The request line, in the \<open>client_to_server\<close> branch.\<close>

definition http_request_line :: "bytes list \<Rightarrow> pydict \<times> exn option" where
  "http_request_line lines =
     (if lines \<noteq> [] then
        try_step [] (list_index lines 0) (\<lambda>line0.
        let request_line = utf8_decode_ignore line0;
            parts = py_split [32] request_line in
        if length parts \<ge> 3 then
          try_step [] (list_index parts 0) (\<lambda>part0.
          let metadata = dict_set [] (lit ''method'') (PStr part0) in
          try_step metadata (list_index parts 1) (\<lambda>part1.
          let metadata1 = dict_set metadata (lit ''path'') (PStr part1) in
          try_step metadata1 (list_index parts 2) (\<lambda>part2.
          (dict_set metadata1 (lit ''version'') (PStr part2), None))))
        else ([], None))
      else ([], None))"

text \<open>The status line, in the \<open>server_to_client\<close> branch.\<close>

definition http_status_line :: "bytes list \<Rightarrow> pydict \<times> exn option" where
  "http_status_line lines =
     (if lines \<noteq> [] then
        try_step [] (list_index lines 0) (\<lambda>line0.
        let status_line = utf8_decode_ignore line0;
            parts = split_max 32 2 status_line in
        if length parts \<ge> 3 then
          try_step [] (list_index parts 0) (\<lambda>part0.
          let metadata = dict_set [] (lit ''version'') (PStr part0) in
          try_step metadata (list_index parts 1) (\<lambda>part1.
          let metadata1 = dict_set metadata (lit ''status_code'') (PStr part1) in
          try_step metadata1 (list_index parts 2) (\<lambda>part2.
          (dict_set metadata1 (lit ''status_message'') (PStr part2), None))))
        else ([], None))
      else ([], None))"

text \<open>The \<open>try\<close> block of \<open>HTTPProtocolHandler.parse_packet\<close>, and \<open>parse_packet\<close>
  with its \<open>except\<close> clause.\<close>

definition http_parse_body :: "bytes \<Rightarrow> pystr \<Rightarrow> pydict \<times> exn option" where
  "http_parse_body dat direction =
     (let lines = py_split CRLF dat in
      then_step (if direction = lit ''client_to_server'' then http_request_line lines
                 else http_status_line lines) (\<lambda>metadata.
      let headers = http_headers_loop (drop 1 lines) [];
          metadata1 = dict_set metadata (lit ''headers'') (PDict headers)
      in http_body_metadata dat metadata1))"

definition http_parse_packet :: "bytes \<Rightarrow> pystr \<Rightarrow> exn + pydict" where
  "http_parse_packet dat direction = except_parse_error (http_parse_body dat direction)"

text \<open>An HTTP request: the request line, the header lines \<open>name:value\<close>, an empty
  line, the body; every line ends with CRLF.\<close>

definition header_line :: "pystr \<times> pystr \<Rightarrow> pystr" where
  "header_line nv = fst nv @ [58] @ snd nv"

definition http_request ::
  "pystr \<Rightarrow> pystr \<Rightarrow> pystr \<Rightarrow> (pystr \<times> pystr) list \<Rightarrow> bytes \<Rightarrow> bytes" where
  "http_request method path version hdrs body =
     ascii_bytes (method @ [32] @ path @ [32] @ version) @ CRLF
       @ concat (map (\<lambda>nv. ascii_bytes (header_line nv) @ CRLF) hdrs) @ CRLF @ body"

text \<open>A piece of a line: ASCII text without a carriage return; a token of the request
  line has no space either; a header name has no colon.\<close>

definition line_text :: "pystr \<Rightarrow> bool" where
  "line_text s = (is_ascii s \<and> 13 \<notin> set s)"

definition request_token :: "pystr \<Rightarrow> bool" where
  "request_token s = (line_text s \<and> 32 \<notin> set s)"

definition valid_header :: "pystr \<times> pystr \<Rightarrow> bool" where
  "valid_header nv = (line_text (fst nv) \<and> 58 \<notin> set (fst nv) \<and> line_text (snd nv))"

lemma split_on_sep:
  "sep \<noteq> [] \<Longrightarrow> hd sep \<notin> set l \<Longrightarrow>
   split_on sep cur (l @ sep @ rest) = (cur @ l) # split_on sep [] rest"
proof (induction l arbitrary: cur)
  case Nil
  then show ?case by (subst split_on.simps) simp
next
  case (Cons x l)
  then have x: "x \<noteq> hd sep" and l: "hd sep \<notin> set l" by auto
  have "take (length sep) ((x # l) @ sep @ rest) \<noteq> sep"
  proof
    assume "take (length sep) ((x # l) @ sep @ rest) = sep"
    then have "hd sep = hd (take (length sep) ((x # l) @ sep @ rest))" by simp
    also have "\<dots> = x" using Cons.prems(1) by (cases sep) simp_all
    finally show False using x by simp
  qed
  then have "split_on sep cur ((x # l) @ sep @ rest) = split_on sep (cur @ [x]) (l @ sep @ rest)"
    using Cons.prems(1) by (subst split_on.simps) simp
  with Cons.IH [OF Cons.prems(1) l, of "cur @ [x]"] show ?case by simp
qed

lemma split_on_none:
  "sep \<noteq> [] \<Longrightarrow> hd sep \<notin> set l \<Longrightarrow> split_on sep cur l = [cur @ l]"
proof (induction l arbitrary: cur)
  case Nil
  then show ?case by (subst split_on.simps) simp
next
  case (Cons x l)
  then have x: "x \<noteq> hd sep" and l: "hd sep \<notin> set l" by auto
  have "take (length sep) (x # l) \<noteq> sep"
  proof
    assume "take (length sep) (x # l) = sep"
    then have "hd sep = hd (take (length sep) (x # l))" by simp
    also have "\<dots> = x" using Cons.prems(1) by (cases sep) simp_all
    finally show False using x by simp
  qed
  then have "split_on sep cur (x # l) = split_on sep (cur @ [x]) l"
    using Cons.prems(1) by (subst split_on.simps) simp
  with Cons.IH [OF Cons.prems(1) l, of "cur @ [x]"] show ?case by simp
qed

lemma ascii_bytes_no_cr: "line_text s \<Longrightarrow> 13 \<notin> set (ascii_bytes s)"
proof
  assume lt: "line_text s" and "13 \<in> set (ascii_bytes s)"
  then obtain c where c: "c \<in> set s" "(of_nat c :: byte) = 13"
    by (auto simp: ascii_bytes_def)
  from lt c(1) have "c < 128" "c \<noteq> 13" by (auto simp: line_text_def is_ascii_def list_all_iff)
  from c(2) have "unat (of_nat c :: byte) = 13" by simp
  with \<open>c < 128\<close> have "c = 13" by (simp add: unat_of_nat)
  with \<open>c \<noteq> 13\<close> show False by simp
qed

lemma ascii_bytes_append: "ascii_bytes (a @ b) = ascii_bytes a @ ascii_bytes b"
  by (simp add: ascii_bytes_def)

lemma line_text_header: "valid_header nv \<Longrightarrow> line_text (header_line nv)"
  by (auto simp: valid_header_def line_text_def header_line_def is_ascii_def)

lemma request_lines:
  assumes "line_text rl" and "list_all valid_header hdrs"
  shows "py_split CRLF (ascii_bytes rl @ CRLF
            @ concat (map (\<lambda>nv. ascii_bytes (header_line nv) @ CRLF) hdrs) @ CRLF @ body)
         = ascii_bytes rl # map (\<lambda>nv. ascii_bytes (header_line nv)) hdrs
             @ [] # split_on CRLF [] body"
proof -
  have sep: "CRLF \<noteq> []" "hd CRLF = 13" by (simp_all add: CRLF_def)
  have hs: "split_on CRLF [] (concat (map (\<lambda>nv. ascii_bytes (header_line nv) @ CRLF) hdrs) @ CRLF @ body)
            = map (\<lambda>nv. ascii_bytes (header_line nv)) hdrs @ [] # split_on CRLF [] body"
    using assms(2)
  proof (induction hdrs)
    case Nil
    show ?case using split_on_sep [OF sep(1), of "[]" "[]" body] by (simp add: sep)
  next
    case (Cons nv hdrs)
    then have v: "valid_header nv" and r: "list_all valid_header hdrs" by simp_all
    have "hd CRLF \<notin> set (ascii_bytes (header_line nv))"
      using ascii_bytes_no_cr [OF line_text_header [OF v]] by (simp add: sep)
    from split_on_sep [OF sep(1) this, of "[]"] Cons.IH [OF r] show ?case by simp
  qed
  have "hd CRLF \<notin> set (ascii_bytes rl)" using ascii_bytes_no_cr [OF assms(1)] by (simp add: sep)
  from split_on_sep [OF sep(1) this, of "[]"] hs show ?thesis by (simp add: py_split_def)
qed

lemma request_line_parts:
  assumes "request_token method" and "request_token path" and "request_token version"
  shows "py_split [32] (method @ [32] @ path @ [32] @ version) = [method, path, version]"
proof -
  from assms have n: "hd [32] \<notin> set method" "hd [32] \<notin> set path" "hd [32] \<notin> set version"
    by (simp_all add: request_token_def)
  have "split_on [32] [] version = [version]" using split_on_none [OF _ n(3), of "[]"] by simp
  moreover have "split_on [32] [] (path @ [32] @ version) = path # split_on [32] [] version"
    using split_on_sep [OF _ n(2), of "[]"] by simp
  moreover have "split_on [32] [] (method @ [32] @ path @ [32] @ version)
                 = method # split_on [32] [] (path @ [32] @ version)"
    using split_on_sep [OF _ n(1), of "[]"] by simp
  ultimately show ?thesis by (simp add: py_split_def)
qed

text \<open>What the loop stores for a list of header lines: each line in turn, a later line
  overwriting an earlier one of the same stripped name.\<close>

definition store_headers :: "pydict \<Rightarrow> (pystr \<times> pystr) list \<Rightarrow> pydict" where
  "store_headers headers hdrs =
     foldl (\<lambda>d nv. dict_set d (str_strip (fst nv)) (PStr (str_strip (snd nv)))) headers hdrs"

lemma headers_loop_valid:
  assumes "list_all valid_header hdrs"
  shows "http_headers_loop (map (\<lambda>nv. ascii_bytes (header_line nv)) hdrs @ [] # others) headers
         = store_headers headers hdrs"
  using assms
proof (induction hdrs arbitrary: headers)
  case Nil
  then show ?case by (simp add: store_headers_def)
next
  case (Cons nv hdrs)
  then have v: "valid_header nv" and r: "list_all valid_header hdrs" by simp_all
  obtain n val where nv: "nv = (n, val)" by (cases nv)
  let ?line = "ascii_bytes (header_line nv)"
  have lt: "line_text (header_line nv)" by (rule line_text_header [OF v])
  have ne: "?line \<noteq> []" by (simp add: ascii_bytes_def header_line_def)
  have ncr: "?line \<noteq> CRLF" using ascii_bytes_no_cr [OF lt] by (auto simp: CRLF_def)
  have dec: "utf8_decode_ignore ?line = n @ [58] @ val"
    using lt utf8_decode_ascii [of "header_line nv"] by (simp add: line_text_def header_line_def nv)
  from v nv have nc: "58 \<notin> set n" by (simp add: valid_header_def)
  have tw: "takeWhile (\<lambda>c. c \<noteq> 58) (n @ 58 # val) = n"
    using nc by (induction n) auto
  have dw: "dropWhile (\<lambda>c. c \<noteq> 58) (n @ 58 # val) = 58 # val"
    using nc by (induction n) auto
  have sp: "split_max 58 (Suc 0) (n @ 58 # val) = [n, val]"
    using tw dw by simp
  have "http_headers_loop ((?line # map (\<lambda>nv. ascii_bytes (header_line nv)) hdrs) @ [] # others) headers
        = http_headers_loop (map (\<lambda>nv. ascii_bytes (header_line nv)) hdrs @ [] # others)
            (dict_set headers (str_strip n) (PStr (str_strip val)))"
    using ne ncr by (simp add: dec sp tw dw Let_def)
  with Cons.IH [OF r] show ?case by (simp add: store_headers_def nv)
qed

lemma store_headers_last:
  assumes "i < length hdrs"
    and "\<forall>j. i < j \<and> j < length hdrs \<longrightarrow> str_strip (fst (hdrs ! j)) \<noteq> str_strip (fst (hdrs ! i))"
  shows "dict_get (store_headers headers hdrs) (str_strip (fst (hdrs ! i)))
         = Some (PStr (str_strip (snd (hdrs ! i))))"
  using assms
proof (induction hdrs arbitrary: i rule: rev_induct)
  case Nil
  then show ?case by simp
next
  case (snoc nv hdrs)
  have st: "store_headers headers (hdrs @ [nv])
            = dict_set (store_headers headers hdrs) (str_strip (fst nv)) (PStr (str_strip (snd nv)))"
    by (simp add: store_headers_def)
  show ?case
  proof (cases "i = length hdrs")
    case True
    then show ?thesis by (simp add: st dict_get_dict_set)
  next
    case False
    with snoc.prems(1) have i: "i < length hdrs" by simp
    from snoc.prems(2) [rule_format, of "length hdrs"] i
    have "str_strip (fst ((hdrs @ [nv]) ! length hdrs))
                               \<noteq> str_strip (fst ((hdrs @ [nv]) ! i))" by simp
    then have ne: "str_strip (fst (hdrs ! i)) \<noteq> str_strip (fst nv)"
      using i by (simp add: nth_append)
    have "\<forall>j. i < j \<and> j < length hdrs \<longrightarrow> str_strip (fst (hdrs ! j)) \<noteq> str_strip (fst (hdrs ! i))"
    proof (intro allI impI)
      fix j assume j: "i < j \<and> j < length hdrs"
      with snoc.prems(2) [rule_format, of j]
      have "str_strip (fst ((hdrs @ [nv]) ! j)) \<noteq> str_strip (fst ((hdrs @ [nv]) ! i))"
        by simp
      with j i show "str_strip (fst (hdrs ! j)) \<noteq> str_strip (fst (hdrs ! i))"
        by (simp add: nth_append)
    qed
    from snoc.IH [OF i this] ne i show ?thesis by (simp add: st dict_get_dict_set nth_append)
  qed
qed

lemma list_index_in: "i < length xs \<Longrightarrow> list_index xs i = Inr (xs ! i)"
  by (simp add: list_index_def)

text \<open>When the separator occurs, the split has two pieces, and the index \<open>[1]\<close> is in
  range.\<close>

lemma split_first_body:
  "contains sep s \<Longrightarrow> \<exists>body. list_index (split_first sep s) 1 = Inr body"
  by (auto simp: contains_def split_first_def list_index_def)

lemma http_body_metadata_returns: "snd (http_body_metadata dat metadata) = None"
proof (cases "contains (CRLF @ CRLF) dat")
  case True
  from split_first_body [OF this] obtain body where
    "list_index (split_first (CRLF @ CRLF) dat) 1 = Inr body" ..
  then show ?thesis
    using True by (simp add: http_body_metadata_def Let_def try_step_Inr split: pyval.splits)
next
  case False
  then show ?thesis by (simp add: http_body_metadata_def Let_def)
qed

lemma http_body_metadata_keeps:
  "k \<notin> set [lit ''content_type'', lit ''body_length'', lit ''body_preview''] \<Longrightarrow>
   dict_get (fst (http_body_metadata dat metadata)) k = dict_get metadata k"
proof (cases "contains (CRLF @ CRLF) dat")
  case True
  assume k: "k \<notin> set [lit ''content_type'', lit ''body_length'', lit ''body_preview'']"
  from split_first_body [OF True] obtain body where
    "list_index (split_first (CRLF @ CRLF) dat) 1 = Inr body" ..
  then show ?thesis
    using True k
    by (auto simp: http_body_metadata_def Let_def try_step_Inr dict_get_dict_set split: pyval.splits)
next
  case False
  assume "k \<notin> set [lit ''content_type'', lit ''body_length'', lit ''body_preview'']"
  with False show ?thesis by (simp add: http_body_metadata_def Let_def dict_get_dict_set)
qed

lemma then_step_done: "then_step (metadata, None) k = k metadata"
  by (simp add: then_step_def)

text \<open>No step of the \<open>try\<close> block raises: the request line and the status line are
  indexed under the tests of the lengths, and the body is taken from a split that has
  two pieces.\<close>

lemma http_request_line_returns: "snd (http_request_line lines) = None"
  by (simp add: http_request_line_def Let_def list_index_def try_step_Inr)

lemma http_status_line_returns: "snd (http_status_line lines) = None"
  by (simp add: http_status_line_def Let_def list_index_def try_step_Inr)

lemma http_parse_body_returns: "snd (http_parse_body dat direction) = None"
proof -
  let ?lines = "py_split CRLF dat"
  let ?first = "if direction = lit ''client_to_server'' then http_request_line ?lines
                else http_status_line ?lines"
  have "snd ?first = None" by (simp add: http_request_line_returns http_status_line_returns)
  then obtain metadata where "?first = (metadata, None)" by (cases ?first) simp
  then show ?thesis
    unfolding http_parse_body_def Let_def
    by (simp only: then_step_done http_body_metadata_returns)
qed

text \<open>The result for a valid request.\<close>

lemma http_request_result:
  assumes "request_token method" and "request_token path" and "request_token version"
    and "list_all valid_header hdrs"
  shows "http_parse_packet (http_request method path version hdrs body) (lit ''client_to_server'')
         = Inr (fst (http_body_metadata (http_request method path version hdrs body)
                  (dict_set [(lit ''method'', PStr method), (lit ''path'', PStr path),
                             (lit ''version'', PStr version)]
                     (lit ''headers'') (PDict (store_headers [] hdrs)))))"
proof -
  let ?rl = "method @ [32] @ path @ [32] @ version"
  let ?dat = "http_request method path version hdrs body"
  from assms(1-3) have rl: "line_text ?rl"
    by (auto simp: request_token_def line_text_def is_ascii_def)
  have lines: "py_split CRLF ?dat
               = ascii_bytes ?rl # map (\<lambda>nv. ascii_bytes (header_line nv)) hdrs
                   @ [] # split_on CRLF [] body"
    unfolding http_request_def by (rule request_lines [OF rl assms(4)])
  have dec: "utf8_decode_ignore (ascii_bytes ?rl) = ?rl"
    using rl by (simp add: utf8_decode_ascii line_text_def)
  have dec': "utf8_decode_ignore (ascii_bytes (method @ 32 # path @ 32 # version))
                = method @ 32 # path @ 32 # version"
    using dec by simp
  have parts: "py_split [32] (method @ 32 # path @ 32 # version) = [method, path, version]"
    using request_line_parts [OF assms(1-3)] by simp
  have line: "http_request_line (ascii_bytes (method @ 32 # path @ 32 # version) # map (\<lambda>nv. ascii_bytes (header_line nv)) hdrs
                   @ [] # split_on CRLF [] body)
              = ([(lit ''method'', PStr method), (lit ''path'', PStr path),
                  (lit ''version'', PStr version)], None)"
    unfolding http_request_line_def Let_def
    by (simp add: dec' parts list_index_def try_step_Inr dict_set_def lit_eq_iff)
  obtain md where md: "http_body_metadata ?dat
                  (dict_set [(lit ''method'', PStr method), (lit ''path'', PStr path),
                             (lit ''version'', PStr version)]
                     (lit ''headers'') (PDict (store_headers [] hdrs))) = (md, None)"
    using http_body_metadata_returns
    by (metis prod.collapse)
  show ?thesis
    unfolding http_parse_packet_def http_parse_body_def lines Let_def
    by (simp add: line then_step_done headers_loop_valid [OF assms(4)] md except_parse_error_def)
qed

text \<open>
  C7 as stated fails for a request that repeats a header name: the headers are kept
  in a dictionary, so of the two lines \<open>A:1\<close> and \<open>A:2\<close> of this valid request only
  the pair of the second is recovered.
\<close>

theorem http_repeated_header_counterexample:
  "list_all valid_header [(lit ''A'', lit ''1''), (lit ''A'', lit ''2'')] \<and>
   http_parse_packet
      (http_request (lit ''GET'') (lit ''/'') (lit ''HTTP/1.1'')
         [(lit ''A'', lit ''1''), (lit ''A'', lit ''2'')] [])
      (lit ''client_to_server'')
     = Inr [(lit ''method'', PStr (lit ''GET'')), (lit ''path'', PStr (lit ''/'')),
            (lit ''version'', PStr (lit ''HTTP/1.1'')),
            (lit ''headers'', PDict [(lit ''A'', PStr (lit ''2''))]),
            (lit ''content_type'', PStr []),
            (lit ''body_length'', PInt 0)]"
proof -
  let ?hdrs = "[(lit ''A'', lit ''1''), (lit ''A'', lit ''2'')]"
  let ?dat = "http_request (lit ''GET'') (lit ''/'') (lit ''HTTP/1.1'') ?hdrs []"
  have h1: "request_token (lit ''GET'')"
    by (simp add: request_token_def line_text_def is_ascii_def lit_def)
  have h2: "request_token (lit ''/'')"
    by (simp add: request_token_def line_text_def is_ascii_def lit_def)
  have h3: "request_token (lit ''HTTP/1.1'')"
    by (simp add: request_token_def line_text_def is_ascii_def lit_def)
  have h4: "list_all valid_header ?hdrs"
    by (simp add: valid_header_def line_text_def is_ascii_def lit_def)
  have st: "store_headers [] ?hdrs = [(lit ''A'', PStr (lit ''2''))]"
    by (simp add: store_headers_def dict_set_def str_strip_def is_space_def lit_def)
  have body: "find_after (CRLF @ CRLF) ?dat = Some []"
    by (simp add: http_request_def ascii_bytes_def header_line_def CRLF_def lit_def)
  have sp: "contains (CRLF @ CRLF) ?dat" unfolding contains_def body by simp
  have sp1: "list_index (split_first (CRLF @ CRLF) ?dat) 1 = Inr []"
    unfolding split_first_def body by (simp add: list_index_def)
  have "fst (http_body_metadata ?dat
          (dict_set [(lit ''method'', PStr (lit ''GET'')), (lit ''path'', PStr (lit ''/'')),
                     (lit ''version'', PStr (lit ''HTTP/1.1''))]
             (lit ''headers'') (PDict [(lit ''A'', PStr (lit ''2''))])))
        = [(lit ''method'', PStr (lit ''GET'')), (lit ''path'', PStr (lit ''/'')),
            (lit ''version'', PStr (lit ''HTTP/1.1'')),
            (lit ''headers'', PDict [(lit ''A'', PStr (lit ''2''))]),
            (lit ''content_type'', PStr []),
            (lit ''body_length'', PInt 0)]"
    unfolding http_body_metadata_def Let_def if_P [OF sp] sp1 try_step_Inr
    by (simp add: get_content_type_def dict_get_def dict_set_def lit_eq_iff startswith_def Let_def)
       (simp add: lit_def)
  with http_request_result [OF h1 h2 h3 h4, of "[]"] h4 show ?thesis by (simp add: st)
qed

text \<open>
  C7, as the code has it. For every valid HTTP request made of a request line and
  CRLF-separated header lines, \<open>parse_packet\<close> in the \<open>client_to_server\<close> direction
  recovers method, path and version from the request line, and recovers the name and
  value of every header line that no later line repeats the name of, the case of the
  name preserved and surrounding white space trimmed from name and value.
\<close>

theorem http_request_parsed:
  assumes "request_token method" and "request_token path" and "request_token version"
    and "list_all valid_header hdrs"
  shows "\<exists>md headers.
           http_parse_packet (http_request method path version hdrs body) (lit ''client_to_server'')
             = Inr md \<and>
           dict_get md (lit ''method'') = Some (PStr method) \<and>
           dict_get md (lit ''path'') = Some (PStr path) \<and>
           dict_get md (lit ''version'') = Some (PStr version) \<and>
           dict_get md (lit ''headers'') = Some (PDict headers) \<and>
           (\<forall>i < length hdrs.
              (\<forall>j. i < j \<and> j < length hdrs \<longrightarrow>
                   str_strip (fst (hdrs ! j)) \<noteq> str_strip (fst (hdrs ! i))) \<longrightarrow>
              dict_get headers (str_strip (fst (hdrs ! i)))
                = Some (PStr (str_strip (snd (hdrs ! i)))))"
proof -
  let ?dat = "http_request method path version hdrs body"
  let ?base = "[(lit ''method'', PStr method), (lit ''path'', PStr path),
               (lit ''version'', PStr version)]"
  let ?md = "fst (http_body_metadata ?dat
                    (dict_set ?base (lit ''headers'') (PDict (store_headers [] hdrs))))"
  have res: "http_parse_packet ?dat (lit ''client_to_server'') = Inr ?md"
    by (rule http_request_result [OF assms])
  have g: "dict_get ?md k = dict_get (dict_set ?base (lit ''headers'') (PDict (store_headers [] hdrs))) k"
    if "k \<in> set [lit ''method'', lit ''path'', lit ''version'', lit ''headers'']" for k
    using that by (intro http_body_metadata_keeps) (auto simp: lit_eq_iff)
  have "dict_get ?md (lit ''method'') = Some (PStr method)"
    by (subst g) (simp_all add: dict_get_dict_set dict_get_Cons lit_eq_iff)
  moreover have "dict_get ?md (lit ''path'') = Some (PStr path)"
    by (subst g) (simp_all add: dict_get_dict_set dict_get_Cons lit_eq_iff)
  moreover have "dict_get ?md (lit ''version'') = Some (PStr version)"
    by (subst g) (simp_all add: dict_get_dict_set dict_get_Cons lit_eq_iff)
  moreover have "dict_get ?md (lit ''headers'') = Some (PDict (store_headers [] hdrs))"
    by (subst g) (simp_all add: dict_get_dict_set dict_get_Cons lit_eq_iff)
  ultimately show ?thesis using res store_headers_last [of _ hdrs "[]"] by blast
qed

theorem http_request_parsed_witness:
  "request_token (lit ''GET'') \<and> request_token (lit ''/index.html'') \<and>
   request_token (lit ''HTTP/1.1'') \<and>
   list_all valid_header [(lit ''Host'', lit '' example.com''), (lit ''Accept'', lit '' text/html '')] \<and>
   (\<exists>md headers.
      http_parse_packet
        (http_request (lit ''GET'') (lit ''/index.html'') (lit ''HTTP/1.1'')
           [(lit ''Host'', lit '' example.com''), (lit ''Accept'', lit '' text/html '')] [])
        (lit ''client_to_server'') = Inr md \<and>
      dict_get md (lit ''method'') = Some (PStr (lit ''GET'')) \<and>
      dict_get md (lit ''path'') = Some (PStr (lit ''/index.html'')) \<and>
      dict_get md (lit ''version'') = Some (PStr (lit ''HTTP/1.1'')) \<and>
      dict_get md (lit ''headers'') = Some (PDict headers) \<and>
      dict_get headers (lit ''Host'') = Some (PStr (lit ''example.com'')) \<and>
      dict_get headers (lit ''Accept'') = Some (PStr (lit ''text/html'')))"
proof -
  let ?hdrs = "[(lit ''Host'', lit '' example.com''), (lit ''Accept'', lit '' text/html '')]"
  have h1: "request_token (lit ''GET'')"
    by (simp add: request_token_def line_text_def is_ascii_def lit_def)
  have h2: "request_token (lit ''/index.html'')"
    by (simp add: request_token_def line_text_def is_ascii_def lit_def)
  have h3: "request_token (lit ''HTTP/1.1'')"
    by (simp add: request_token_def line_text_def is_ascii_def lit_def)
  have h4: "list_all valid_header ?hdrs"
    by (simp add: valid_header_def line_text_def is_ascii_def lit_def)
  have s: "str_strip (lit ''Host'') = lit ''Host''" "str_strip (lit ''Accept'') = lit ''Accept''"
    "str_strip (lit '' example.com'') = lit ''example.com''"
    "str_strip (lit '' text/html '') = lit ''text/html''"
    by (simp_all add: str_strip_def is_space_def lit_def)
  from http_request_parsed [OF h1 h2 h3 h4, of "[]"] obtain md headers where
    r: "http_parse_packet
        (http_request (lit ''GET'') (lit ''/index.html'') (lit ''HTTP/1.1'') ?hdrs [])
        (lit ''client_to_server'') = Inr md"
      "dict_get md (lit ''method'') = Some (PStr (lit ''GET''))"
      "dict_get md (lit ''path'') = Some (PStr (lit ''/index.html''))"
      "dict_get md (lit ''version'') = Some (PStr (lit ''HTTP/1.1''))"
      "dict_get md (lit ''headers'') = Some (PDict headers)"
    and last: "\<forall>i < length ?hdrs.
              (\<forall>j. i < j \<and> j < length ?hdrs \<longrightarrow>
                   str_strip (fst (?hdrs ! j)) \<noteq> str_strip (fst (?hdrs ! i))) \<longrightarrow>
              dict_get headers (str_strip (fst (?hdrs ! i)))
                = Some (PStr (str_strip (snd (?hdrs ! i))))"
    by blast
  have ne: "lit ''Accept'' \<noteq> lit ''Host''" by (simp add: lit_eq_iff)
  have c0: "\<forall>j. 0 < j \<and> j < length ?hdrs \<longrightarrow>
                 str_strip (fst (?hdrs ! j)) \<noteq> str_strip (fst (?hdrs ! 0))"
    using ne by (auto simp: s less_Suc_eq)
  have c1: "\<forall>j. 1 < j \<and> j < length ?hdrs \<longrightarrow>
                 str_strip (fst (?hdrs ! j)) \<noteq> str_strip (fst (?hdrs ! 1))"
    by auto
  have l: "0 < length ?hdrs" "1 < length ?hdrs" by simp_all
  from last [THEN spec, THEN mp, THEN mp, OF l(1) c0]
  have "dict_get headers (lit ''Host'') = Some (PStr (lit ''example.com''))"
    by (simp add: s)
  moreover from last [THEN spec, THEN mp, THEN mp, OF l(2) c1]
  have "dict_get headers (lit ''Accept'') = Some (PStr (lit ''text/html''))"
    by (simp add: s)
  ultimately show ?thesis using h1 h2 h3 h4 r by blast
qed

section \<open>protocols/telnet.py: parse\_packet\<close>

definition get_command_name :: "byte \<Rightarrow> pystr" where
  "get_command_name cmd =
     (if cmd = DO then lit ''DO'' else if cmd = DONT then lit ''DONT''
      else if cmd = WILL then lit ''WILL'' else if cmd = WONT then lit ''WONT''
      else if cmd = SB then lit ''SB'' else if cmd = SE then lit ''SE''
      else str_int (uint cmd))"

definition get_option_name :: "byte \<Rightarrow> pystr" where
  "get_option_name opt =
     (if opt = 1 then lit ''ECHO'' else if opt = 3 then lit ''SGA''
      else if opt = 24 then lit ''TERM_TYPE'' else if opt = 31 then lit ''NAWS''
      else if opt = 32 then lit ''TERM_SPEED'' else if opt = 34 then lit ''LINEMODE''
      else if opt = 36 then lit ''ENV_VARS''
      else str_int (uint opt))"

text \<open>
  The search of \<open>parse_packet\<close> for the end of a subnegotiation,
  \<^verbatim>\<open>while j < len(data) - 1:
      if data[j] == self.IAC and data[j+1] == self.SE: break
      j += 1\<close>
  with each read of \<open>data\<close> as the index expression it is: the value of \<open>j\<close> after
  the loop, or the exception of a read.
\<close>

function telnet_find_end :: "bytes \<Rightarrow> nat \<Rightarrow> exn + nat" where
  "telnet_find_end dat j =
     (if j < length dat - 1 then
        (case bytes_index dat j of
           Inl e \<Rightarrow> Inl e
         | Inr b \<Rightarrow>
             if b = IAC then
               (case bytes_index dat (j + 1) of
                  Inl e \<Rightarrow> Inl e
                | Inr b1 \<Rightarrow> if b1 = SE then Inr j else telnet_find_end dat (j + 1))
             else telnet_find_end dat (j + 1))
      else Inr j)"
  by pat_completeness auto
termination
  by (relation "measure (\<lambda>(dat, j). length dat - j)") auto

declare telnet_find_end.simps [simp del]

text \<open>The reads are in range, and the loop is the one of the command processor.\<close>

lemma telnet_find_end_find_se: "telnet_find_end dat j = Inr (find_se dat j)"
proof (induction dat j rule: find_se.induct)
  case (1 buffer j)
  show ?case
  proof (cases "j < length buffer - 1")
    case True
    then have r: "bytes_index buffer j = Inr (buffer ! j)"
      "bytes_index buffer (j + 1) = Inr (buffer ! (j + 1))"
      by (simp_all add: bytes_index_def)
    show ?thesis
    proof (cases "buffer ! j = IAC \<and> buffer ! (j + 1) = SE")
      case hit: True
      then show ?thesis
        using True r by (subst telnet_find_end.simps) (simp add: find_se_hit)
    next
      case miss: False
      from 1 [OF True miss] have "telnet_find_end buffer (j + 1) = Inr (find_se buffer (j + 1))" .
      then show ?thesis
        using True r miss find_se_step [OF True miss]
        by (subst telnet_find_end.simps) auto
    qed
  next
    case False
    then show ?thesis by (subst telnet_find_end.simps) (simp add: find_se_stop)
  qed
qed

text \<open>
  The scan of \<open>parse_packet\<close> for command sequences, \<open>while i < len(data)\<close>, with
  the index and the list of commands as arguments: the list when the loop ends, or the
  exception of a read of \<open>data\<close>.
\<close>

function telnet_scan :: "bytes \<Rightarrow> nat \<Rightarrow> pystr list \<Rightarrow> exn + pystr list" where
  "telnet_scan dat i commands =
     (if i < length dat then
        (case bytes_index dat i of
           Inl e \<Rightarrow> Inl e
         | Inr b \<Rightarrow>
             if b = IAC \<and> i < length dat - 1 then
               (case bytes_index dat (i + 1) of
                  Inl e \<Rightarrow> Inl e
                | Inr cmd \<Rightarrow>
                    (let cmd_name = get_command_name cmd in
                     if cmd \<in> set [DO, DONT, WILL, WONT] \<and> i < length dat - 2 then
                       (case bytes_index dat (i + 2) of
                          Inl e \<Rightarrow> Inl e
                        | Inr opt \<Rightarrow>
                            (let opt_name = get_option_name opt in
                             telnet_scan dat (i + 3)
                               (commands @ [lit ''IAC '' @ cmd_name @ lit '' '' @ opt_name])))
                     else if cmd = SB \<and> i < length dat - 2 then
                       (case bytes_index dat (i + 2) of
                          Inl e \<Rightarrow> Inl e
                        | Inr sub_opt \<Rightarrow>
                            (let sub_opt_name = get_option_name sub_opt in
                             case telnet_find_end dat (i + 3) of
                               Inl e \<Rightarrow> Inl e
                             | Inr j \<Rightarrow>
                                 if j < length dat - 1 then
                                   telnet_scan dat (j + 2)
                                     (commands @ [lit ''IAC SB '' @ sub_opt_name @ lit '' ''
                                                    @ bytes_hex (slice dat (i + 3) j)
                                                    @ lit '' IAC SE''])
                                 else
                                   telnet_scan dat (length dat)
                                     (commands @ [lit ''IAC SB '' @ sub_opt_name
                                                    @ lit '' [incomplete]''])))
                     else telnet_scan dat (i + 2) (commands @ [lit ''IAC '' @ cmd_name])))
             else telnet_scan dat (i + 1) commands)
      else Inr commands)"
  by pat_completeness auto
termination
proof (relation "measure (\<lambda>(dat, i, commands). length dat - i)", goal_cases)
  case 1
  show ?case by simp
next
  case (2 dat i commands b cmd cmd_name opt opt_name)
  then show ?case by simp
next
  case (3 dat i commands b cmd cmd_name sub_opt sub_opt_name j)
  from 3 have "find_se dat (i + 3) = j" by (simp add: telnet_find_end_find_se)
  with find_se_ge [of "i + 3" dat] have "i + 3 \<le> j" by simp
  with 3 show ?case by auto
next
  case (4 dat i commands b cmd cmd_name sub_opt sub_opt_name j)
  then show ?case by simp
next
  case (5 dat i commands b cmd cmd_name)
  then show ?case by simp
next
  case (6 dat i commands b)
  then show ?case by simp
qed

declare telnet_scan.simps [simp del]

text \<open>\<open>s.split()\<close>: the words between runs of white space.\<close>

fun split_ws :: "pystr \<Rightarrow> pystr \<Rightarrow> pystr list" where
  "split_ws cur [] = (if cur = [] then [] else [cur])"
| "split_ws cur (c # s) =
     (if is_space c then (if cur = [] then split_ws [] s else cur # split_ws [] s)
      else split_ws (cur @ [c]) s)"

text \<open>
  The \<open>try\<close> block of \<open>TelnetProtocolHandler.parse_packet\<close>. The displayable bytes
  are ASCII, so \<open>decode('ascii', errors='ignore')\<close> keeps each of them.
\<close>

definition telnet_parse_body :: "bytes \<Rightarrow> pydict \<times> exn option" where
  "telnet_parse_body dat =
     try_step [] (telnet_scan dat 0 []) (\<lambda>commands.
     let metadata = dict_set [] (lit ''command_count'') (PInt (int (length commands)));
         metadata1 =
           (if commands \<noteq> [] then
              (let m = dict_set metadata (lit ''commands'') (PList (map PStr (take 10 commands)))
               in if length commands > 10
                  then dict_set m (lit ''additional_commands'') (PInt (int (length commands) - 10))
                  else m)
            else metadata);
         displayable = filter (\<lambda>b. b \<ge> 32 \<and> b < 127 \<or> b \<in> set [9, 10, 13]) dat;
         text = map unat displayable;
         text1 = str_join (lit '' '') (split_ws [] text)
     in
       if text1 \<noteq> [] then
         (let preview = take 100 text1 in
          (dict_set metadata1 (lit ''text_preview'')
             (PStr (if length text1 > 100 then preview @ lit ''...'' else preview)), None))
       else (metadata1, None))"

text \<open>\<open>parse_packet\<close>, with its \<open>except\<close> clause.\<close>

definition telnet_parse_packet :: "bytes \<Rightarrow> pystr \<Rightarrow> exn + pydict" where
  "telnet_parse_packet dat direction = except_parse_error (telnet_parse_body dat)"

text \<open>No read of the scan is out of range: each is made under a test of the index
  against the length.\<close>

lemma telnet_scan_returns: "\<exists>cs. telnet_scan dat i commands = Inr cs"
proof (induction dat i commands rule: telnet_scan.induct)
  case (1 dat i commands)
  show ?case
  proof (cases "i < length dat")
    case False
    then show ?thesis by (subst telnet_scan.simps) simp
  next
    case i: True
    then have r0: "bytes_index dat i = Inr (dat ! i)" by (simp add: bytes_index_def)
    show ?thesis
    proof (cases "dat ! i = IAC \<and> i < length dat - 1")
      case False
      from 1(5) [OF i r0 False] show ?thesis
        using i r0 False by (subst telnet_scan.simps) auto
    next
      case iac: True
      then have r1: "bytes_index dat (i + 1) = Inr (dat ! (i + 1))"
        by (auto simp: bytes_index_def)
      let ?cmd = "dat ! (i + 1)"
      show ?thesis
      proof (cases "?cmd \<in> set [DO, DONT, WILL, WONT] \<and> i < length dat - 2")
        case neg: True
        then have r2: "bytes_index dat (i + 2) = Inr (dat ! (i + 2))"
          by (auto simp: bytes_index_def)
        from 1(1) [OF i r0 iac r1 refl neg r2 refl] show ?thesis
          using i r0 iac r1 neg r2 by (subst telnet_scan.simps) (simp add: Let_def)
      next
        case not_neg: False
        show ?thesis
        proof (cases "?cmd = SB \<and> i < length dat - 2")
          case sb: True
          then have r2: "bytes_index dat (i + 2) = Inr (dat ! (i + 2))"
            by (auto simp: bytes_index_def)
          note e = telnet_find_end_find_se [of dat "i + 3"]
          show ?thesis
          proof (cases "find_se dat (i + 3) < length dat - 1")
            case True
            from 1(2) [OF i r0 iac r1 refl not_neg sb r2 refl e True] show ?thesis
              using i r0 iac r1 not_neg sb r2 e True
              by (subst telnet_scan.simps) (simp add: Let_def)
          next
            case False
            from 1(3) [OF i r0 iac r1 refl not_neg sb r2 refl e False] show ?thesis
              using i r0 iac r1 not_neg sb r2 e False
              by (subst telnet_scan.simps) (simp add: Let_def)
          qed
        next
          case other: False
          from 1(4) [OF i r0 iac r1 refl not_neg other] show ?thesis
            using i r0 iac r1 not_neg other by (subst telnet_scan.simps) (auto simp: Let_def)
        qed
      qed
    qed
  qed
qed

lemma telnet_parse_body_returns: "snd (telnet_parse_body dat) = None"
proof -
  obtain cs where "telnet_scan dat 0 [] = Inr cs" using telnet_scan_returns by blast
  then show ?thesis by (simp add: telnet_parse_body_def try_step_Inr Let_def)
qed

section \<open>The parsers never raise\<close>

lemma except_returns: "\<exists>md. except_parse_error body = Inr md"
  by (cases body) (simp add: except_parse_error_def split: option.splits)

lemma except_not_entered:
  "snd body = None \<Longrightarrow> except_parse_error body = Inr (fst body)"
  by (cases body) (simp add: except_parse_error_def)

lemma except_records:
  "snd body = Some e \<Longrightarrow>
   \<exists>md. except_parse_error body = Inr md \<and>
        dict_get md (lit ''parse_error'') = Some (PStr (str_exn e))"
  by (cases body) (simp add: except_parse_error_def dict_get_dict_set)

text \<open>
  C2. For every byte sequence and every direction, the \<open>parse_packet\<close> of each
  protocol handler (HTTP, DNS, Telnet, FTP) returns a metadata dictionary: no exception
  leaves it. In the HTTP and the Telnet parser no step of the \<open>try\<close> block raises
  (every index is in range), so the \<open>except\<close> clause is not entered and the
  dictionary returned is the one the block has built. The DNS and the FTP parser have
  steps that raise (\<open>data[offset]\<close> past the end of a datagram, \<open>int\<close> of a number
  of more than 4300 digits), and whatever exception ends their \<open>try\<close> block is
  recorded in the returned dictionary as \<open>parse_error\<close>, with its text; a DNS
  datagram shorter than the header yields the \<open>error\<close> field.
\<close>

theorem parse_packet_never_raises:
  "(\<exists>md. http_parse_packet dat direction = Inr md) \<and>
   (\<exists>md. dns_parse_packet dat direction = Inr md) \<and>
   (\<exists>md. telnet_parse_packet dat direction = Inr md) \<and>
   (\<exists>md. ftp_parse_packet U dat direction = Inr md) \<and>
   snd (http_parse_body dat direction) = None \<and>
   http_parse_packet dat direction = Inr (fst (http_parse_body dat direction)) \<and>
   snd (telnet_parse_body dat) = None \<and>
   telnet_parse_packet dat direction = Inr (fst (telnet_parse_body dat)) \<and>
   (length dat < 12 \<longrightarrow>
      dns_parse_packet dat direction
        = Inr [(lit ''error'', PStr (lit ''Packet too short for DNS header''))]) \<and>
   (\<forall>e. snd (dns_parse_body dat) = Some e \<longrightarrow>
      (\<exists>md. dns_parse_packet dat direction = Inr md \<and>
            dict_get md (lit ''parse_error'') = Some (PStr (str_exn e)))) \<and>
   (\<forall>e. snd (ftp_parse_body U dat direction) = Some e \<longrightarrow>
      (\<exists>md. ftp_parse_packet U dat direction = Inr md \<and>
            dict_get md (lit ''parse_error'') = Some (PStr (str_exn e))))"
proof -
  have http: "\<exists>md. http_parse_packet dat direction = Inr md"
    unfolding http_parse_packet_def by (rule except_returns)
  have dns: "\<exists>md. dns_parse_packet dat direction = Inr md"
    by (rule dns_parse_packet_returns)
  have telnet: "\<exists>md. telnet_parse_packet dat direction = Inr md"
    unfolding telnet_parse_packet_def by (rule except_returns)
  have ftp: "\<exists>md. ftp_parse_packet U dat direction = Inr md"
    unfolding ftp_parse_packet_def by (rule except_returns)
  have http_body: "snd (http_parse_body dat direction) = None"
    by (rule http_parse_body_returns)
  have http_result: "http_parse_packet dat direction = Inr (fst (http_parse_body dat direction))"
    unfolding http_parse_packet_def by (rule except_not_entered [OF http_body])
  have telnet_body: "snd (telnet_parse_body dat) = None"
    by (rule telnet_parse_body_returns)
  have telnet_result: "telnet_parse_packet dat direction = Inr (fst (telnet_parse_body dat))"
    unfolding telnet_parse_packet_def by (rule except_not_entered [OF telnet_body])
  have short: "length dat < 12 \<longrightarrow>
      dns_parse_packet dat direction
        = Inr [(lit ''error'', PStr (lit ''Packet too short for DNS header''))]"
    by (simp add: dns_parse_packet_def dns_parse_body_def)
  have dns_raised: "\<forall>e. snd (dns_parse_body dat) = Some e \<longrightarrow>
      (\<exists>md. dns_parse_packet dat direction = Inr md \<and>
            dict_get md (lit ''parse_error'') = Some (PStr (str_exn e)))"
  proof (intro allI impI)
    fix e assume e: "snd (dns_parse_body dat) = Some e"
    obtain md where "dns_parse_body dat = (md, Some e)"
      using e by (cases "dns_parse_body dat") simp
    then show "\<exists>md. dns_parse_packet dat direction = Inr md \<and>
            dict_get md (lit ''parse_error'') = Some (PStr (str_exn e))"
      by (simp add: dns_parse_packet_def dict_get_dict_set)
  qed
  have ftp_raised: "\<forall>e. snd (ftp_parse_body U dat direction) = Some e \<longrightarrow>
      (\<exists>md. ftp_parse_packet U dat direction = Inr md \<and>
            dict_get md (lit ''parse_error'') = Some (PStr (str_exn e)))"
    unfolding ftp_parse_packet_def by (intro allI impI) (rule except_records)
  from http dns telnet ftp http_body http_result telnet_body telnet_result short dns_raised
    ftp_raised
  show ?thesis by blast
qed

definition truncated_query :: bytes where
  "truncated_query = [18, 52, 1, 0, 0, 1, 0, 0, 0, 0, 0, 0, 3, 119, 119, 119]"

text \<open>
  The theorem at work: a DNS datagram of two bytes; a DNS query cut off inside its
  first label, where the read of the next length raises \<open>IndexError\<close>; and the FTP
  response \<open>227 (11...1,0,0,1,4,1)\<close> with 4301 digits in its first number, where
  \<open>int\<close> raises \<open>ValueError\<close>.
\<close>

theorem parse_packet_never_raises_witness:
  "length [18, 52 :: byte] < 12 \<and>
   dns_parse_packet [18, 52] (lit ''client_to_server'')
     = Inr [(lit ''error'', PStr (lit ''Packet too short for DNS header''))] \<and>
   snd (dns_parse_body truncated_query) = Some (IndexError (lit ''index out of range'')) \<and>
   (\<exists>md. dns_parse_packet truncated_query (lit ''client_to_server'') = Inr md \<and>
      dict_get md (lit ''parse_error'') = Some (PStr (lit ''index out of range''))) \<and>
   snd (ftp_parse_body ascii_tables
          (ascii_bytes (lit ''227 ('' @ replicate 4301 49 @ lit '',0,0,1,4,1)''))
          (lit ''server_to_client''))
     = Some (ValueError
               (lit ''Exceeds the limit (4300 digits) for integer string conversion: value has 4301 digits; use sys.set_int_max_str_digits() to increase the limit'')) \<and>
   (\<exists>md. ftp_parse_packet ascii_tables
            (ascii_bytes (lit ''227 ('' @ replicate 4301 49 @ lit '',0,0,1,4,1)''))
            (lit ''server_to_client'') = Inr md \<and>
      dict_get md (lit ''parse_error'')
        = Some (PStr (lit ''Exceeds the limit (4300 digits) for integer string conversion: value has 4301 digits; use sys.set_int_max_str_digits() to increase the limit'')))"
proof -
  let ?long = "ascii_bytes (lit ''227 ('' @ replicate 4301 49 @ lit '',0,0,1,4,1)'')"
  let ?limit = "lit ''Exceeds the limit (4300 digits) for integer string conversion: value has 4301 digits; use sys.set_int_max_str_digits() to increase the limit''"
  have l: "length [18, 52 :: byte] < 12" by simp
  have loop: "dns_name_loop truncated_query 12 [] = Inl (IndexError (lit ''index out of range''))"
  proof -
    have "dns_name_loop truncated_query 12 []
          = dns_name_loop truncated_query 16 [utf8_decode_ignore (slice truncated_query 13 16)]"
      by (subst dns_name_loop.simps) (simp add: truncated_query_def Let_def)
    also have "\<dots> = Inl (IndexError (lit ''index out of range''))"
      by (subst dns_name_loop.simps) (simp add: truncated_query_def)
    finally show ?thesis .
  qed
  have q: "be16 (truncated_query ! 4) (truncated_query ! 5) > 0"
    by (simp add: truncated_query_def be16_def)
  have r: "snd (dns_parse_body truncated_query) = Some (IndexError (lit ''index out of range''))"
    unfolding dns_parse_body_def Let_def using q
    by (simp add: loop) (simp add: truncated_query_def)
  have f: "snd (ftp_parse_body ascii_tables ?long (lit ''server_to_client''))
             = Some (ValueError ?limit)"
    unfolding long_response_body by simp
  from parse_packet_never_raises [of "[18, 52]" "lit ''client_to_server''"]
  have short: "dns_parse_packet [18, 52] (lit ''client_to_server'')
     = Inr [(lit ''error'', PStr (lit ''Packet too short for DNS header''))]"
    using l by blast
  from parse_packet_never_raises [of truncated_query "lit ''client_to_server''"] r
  have d: "\<exists>md. dns_parse_packet truncated_query (lit ''client_to_server'') = Inr md \<and>
      dict_get md (lit ''parse_error'')
        = Some (PStr (str_exn (IndexError (lit ''index out of range''))))"
    by blast
  from parse_packet_never_raises [of ?long "lit ''server_to_client''" ascii_tables] f
  have "\<exists>md. ftp_parse_packet ascii_tables ?long (lit ''server_to_client'') = Inr md \<and>
      dict_get md (lit ''parse_error'') = Some (PStr (str_exn (ValueError ?limit)))"
    by blast
  with l short r d f show ?thesis by simp
qed

end
